theory Spec2Isabelle
  imports Main
begin

section \<open>Orders and the order book\<close>

text \<open>
  \<^verbatim>\<open>src/index.js\<close> is the matcher. It requires \<^verbatim>\<open>./lib/order\<close> and
  \<^verbatim>\<open>./lib/order_book\<close>, which are not part of the sources at hand; the definitions of
  this section follow sections 3 and 4.1 of the specification instead.
  Prices and sizes are integral minor units (\<open>int\<close>). Field names that clash with
  Isabelle names carry a prime: \<open>id'\<close>, \<open>size'\<close>, \<open>done'\<close>.
\<close>

datatype side = Buy | Sell

text \<open>The fields a client supplies in an \<^verbatim>\<open>order\<close> payload, and the serialised form of a
  resting order inside a snapshot.\<close>

record order_data =
  id' :: string
  sender :: string
  side :: side
  price :: int
  size' :: int

text \<open>An Order of the book: the same fields plus the \<^verbatim>\<open>done\<close> flag.\<close>

record order = order_data +
  done' :: bool

text \<open>Modelled from the spec: \<^verbatim>\<open>Order.parse\<close> of \<^verbatim>\<open>lib/order\<close> is missing. It builds the
  Order of section 3 from the fields of a payload; a new order is not done.\<close>

definition parse :: "order_data \<Rightarrow> order" where
  "parse d = \<lparr>id' = id' d, sender = sender d, side = side d, price = price d,
              size' = size' d, done' = False\<rparr>"

text \<open>The serialised view of an order, as \<^verbatim>\<open>state()\<close> stores it.\<close>

definition to_data :: "order \<Rightarrow> order_data" where
  "to_data x = \<lparr>id' = id' x, sender = sender x, side = side x, price = price x,
                size' = size' x\<rparr>"

text \<open>Modelled from the spec: the \<^verbatim>\<open>OrderBook\<close> of \<^verbatim>\<open>lib/order_book\<close> is missing. Each
  side is kept as the sequence of its live orders in priority order, that is the
  concatenation of its price levels, best price first, each level in arrival order. The
  head of a side is therefore the oldest order of its best level. The auxiliary id index
  of the specification is the function \<open>find_order\<close> on these sequences.\<close>

record order_book =
  bids :: "order list"
  asks :: "order list"

definition OrderBook :: order_book where
  "OrderBook = \<lparr>bids = [], asks = []\<rparr>"

text \<open>The events the book emits, each with the orders as they are at the moment of the
  emission (the listeners run synchronously and read the order objects then).\<close>

datatype book_event =
    Add_order order
  | Match int order order
  | Remove_order order

text \<open>Modelled from the spec: ``Buy is crossable if \<^verbatim>\<open>order.price >= best_ask.price\<close>; Sell
  is crossable if \<^verbatim>\<open>order.price <= best_bid.price\<close>''.\<close>

definition crossable :: "order \<Rightarrow> order \<Rightarrow> bool" where
  "crossable t p = (case side t of Buy \<Rightarrow> price p \<le> price t | Sell \<Rightarrow> price t \<le> price p)"

text \<open>Modelled from the spec: the matching rule of \<^verbatim>\<open>add\<close>, section 4.1. The provider is
  the head of the opposite side. In the order of the specification: the trade size is
  the minimum of both sizes, \<^verbatim>\<open>match(size, taker, provider)\<close> is emitted, both sizes are
  decremented, a provider at size 0 is marked done, removed and reported with
  \<^verbatim>\<open>remove_order\<close>, and a taker at size 0 is marked done, reported and the loop stops.
  The result is the events, the taker as it leaves the loop and what is left of the
  opposite side.\<close>

function match_loop :: "order \<Rightarrow> order list \<Rightarrow> book_event list \<times> order \<times> order list" where
  "match_loop t [] = ([], t, [])"
| "match_loop t (p # ps) =
    (if \<not> crossable t p then ([], t, p # ps)
     else
       let n = min (size' t) (size' p);
           t1 = t\<lparr>size' := size' t - n\<rparr>;
           p1 = p\<lparr>size' := size' p - n\<rparr>
       in
         if size' p1 = 0 then
           (if size' t1 = 0 then
              ([Match n t p, Remove_order (p1\<lparr>done' := True\<rparr>),
                Remove_order (t1\<lparr>done' := True\<rparr>)], t1\<lparr>done' := True\<rparr>, ps)
            else
              (case match_loop t1 ps of (evs, t2, rest) \<Rightarrow>
                 (Match n t p # Remove_order (p1\<lparr>done' := True\<rparr>) # evs, t2, rest)))
         else
           (if size' t1 = 0 then
              ([Match n t p, Remove_order (t1\<lparr>done' := True\<rparr>)], t1\<lparr>done' := True\<rparr>, p1 # ps)
            else
              (case match_loop t1 (p1 # ps) of (evs, t2, rest) \<Rightarrow>
                 (Match n t p # evs, t2, rest))))"
  by pat_completeness auto
termination
  by (relation "measure (\<lambda>(t, ps). length ps)") (auto simp: min_def split: if_splits)

text \<open>Modelled from the spec: ``insert it at the tail of its price level on its own
  side (creating the level if absent)''. With a side kept in priority order, the tail of
  the level is the place before the first order with a strictly worse price.\<close>

definition better :: "order \<Rightarrow> order \<Rightarrow> bool" where
  "better t p = (case side t of Buy \<Rightarrow> price p < price t | Sell \<Rightarrow> price t < price p)"

fun insert_order :: "order \<Rightarrow> order list \<Rightarrow> order list" where
  "insert_order t [] = [t]"
| "insert_order t (p # ps) = (if better t p then t # p # ps else p # insert_order t ps)"

text \<open>Modelled from the spec: \<^verbatim>\<open>add(order)\<close>, section 4.1: match while crossable, then,
  if the taker is not fully filled, rest it and emit \<^verbatim>\<open>add_order\<close>.\<close>

definition add :: "order \<Rightarrow> order_book \<Rightarrow> book_event list \<times> order_book" where
  "add t b =
     (case side t of
        Buy \<Rightarrow>
          (case match_loop t (asks b) of (evs, t', rest) \<Rightarrow>
             if done' t' then (evs, b\<lparr>asks := rest\<rparr>)
             else (evs @ [Add_order t'], \<lparr>bids = insert_order t' (bids b), asks = rest\<rparr>))
      | Sell \<Rightarrow>
          (case match_loop t (bids b) of (evs, t', rest) \<Rightarrow>
             if done' t' then (evs, b\<lparr>bids := rest\<rparr>)
             else (evs @ [Add_order t'], \<lparr>bids = rest, asks = insert_order t' (asks b)\<rparr>)))"

text \<open>Modelled from the spec: the failure kinds of \<^verbatim>\<open>remove\<close>. Scenario S4 gives the text
  of the second one; the text of the first is not given by the specification.\<close>

datatype book_error = NotFound | NotOwner

fun message :: "book_error \<Rightarrow> string" where
  "message NotFound = ''not found''"
| "message NotOwner = ''not owner''"

fun find_order :: "string \<Rightarrow> order list \<Rightarrow> order option" where
  "find_order i [] = None"
| "find_order i (x # xs) = (if id' x = i then Some x else find_order i xs)"

fun unlink :: "string \<Rightarrow> order list \<Rightarrow> order list" where
  "unlink i [] = []"
| "unlink i (x # xs) = (if id' x = i then xs else x # unlink i xs)"

text \<open>Modelled from the spec: \<^verbatim>\<open>remove(order_id, sender)\<close>, section 4.1. On success the
  order is unlinked from its level and from the id index, \<^verbatim>\<open>remove_order(order)\<close> is
  emitted and no error is returned. On failure the error is returned, nothing is emitted
  and the book is as before.

  The event carries the order as it rested in the book, its \<^verbatim>\<open>done\<close> flag not set. Section
  4.1 names ``Set \<^verbatim>\<open>done=true\<close>'' first among the steps of a successful remove, and the data
  model has the flag set when an order is cancelled; scenario S3 and invariant 3 of
  section 8 tell a cancelled order from a filled one, and the listener of
  \<^verbatim>\<open>remove_order\<close> in \<^verbatim>\<open>src/index.js\<close> does so by the flag it reads when the event is emitted
  (\<^verbatim>\<open>order.done ? 'filled' : 'cancelled'\<close>). The two agree only if the flag is not yet set
  at the emission, and that is what is modelled; the order has left the book by then, so
  nothing else reads its flag.\<close>

definition remove :: "string \<Rightarrow> string \<Rightarrow> order_book \<Rightarrow> book_error option \<times> book_event list \<times> order_book" where
  "remove oid sndr b =
     (case find_order oid (bids b @ asks b) of
        None \<Rightarrow> (Some NotFound, [], b)
      | Some x \<Rightarrow>
          if sender x \<noteq> sndr then (Some NotOwner, [], b)
          else (None, [Remove_order x],
                if find_order oid (bids b) \<noteq> None then b\<lparr>bids := unlink oid (bids b)\<rparr>
                else b\<lparr>asks := unlink oid (asks b)\<rparr>))"

text \<open>Modelled from the spec: \<^verbatim>\<open>OrderBook.state()\<close>, ``a serializable view of both sides
  in priority order''. The matcher adds \<^verbatim>\<open>state_num\<close> and \<^verbatim>\<open>output_seq\<close> to it.\<close>

record engine_state =
  es_bids :: "order_data list"
  es_asks :: "order_data list"
  es_state_num :: int
  es_output_seq :: int

section \<open>The matcher: state, messages and the feed\<close>

text \<open>
  From here on the definitions follow \<^verbatim>\<open>src/index.js\<close>. The clock (\<^verbatim>\<open>Date.now()\<close>) and
  the match id (\<^verbatim>\<open>uuid\<close>) are not modelled, so \<^verbatim>\<open>timestamp\<close>, \<^verbatim>\<open>exchange_time\<close> and the
  \<^verbatim>\<open>id\<close> of a match payload are left out of the messages. \<^verbatim>\<open>self.emit('process')\<close>, which
  the source marks ``for testing only'', has no listener in the engine and is left out.
\<close>

record matcher =
  state_num :: int
  output_seq :: int
  order_book :: order_book

text \<open>\<^verbatim>\<open>function Matcher(product_id, config)\<close>, and \<^verbatim>\<open>Matcher.prototype.state\<close>.\<close>

definition Matcher :: matcher where
  "Matcher = \<lparr>state_num = 0, output_seq = 0, order_book = OrderBook\<rparr>"

definition state :: "matcher \<Rightarrow> engine_state" where
  "state m = \<lparr>es_bids = map to_data (bids (order_book m)),
              es_asks = map to_data (asks (order_book m)),
              es_state_num = state_num m, es_output_seq = output_seq m\<rparr>"

text \<open>Inbound messages \<^verbatim>\<open>{type, payload}\<close>, which are also the records of the inbound
  journal. \<open>None\<close> is a message without \<^verbatim>\<open>payload\<close>.\<close>

record cancel_data =
  order_id :: string
  sender_id :: string

datatype msg =
    Msg_order "order_data option"
  | Msg_cancel "cancel_data option"
  | Msg_state "int option"
  | Msg_other string

fun has_payload :: "msg \<Rightarrow> bool" where
  "has_payload (Msg_order p) = (p \<noteq> None)"
| "has_payload (Msg_cancel p) = (p \<noteq> None)"
| "has_payload (Msg_state p) = (p \<noteq> None)"
| "has_payload (Msg_other t) = False"

text \<open>The payloads of the feed, as the three book listeners and the order handler build
  them.\<close>

datatype feed_payload =
    Order_status (os_status: string) (os_side: side) (os_order_id: string)
      (os_sender: string) (os_price: int) (os_size: int)
  | Done_status (ds_order_id: string) (ds_status: string) (ds_size: int) (ds_price: int)
      (ds_side: side) (ds_user_id: string) (ds_reason: string)
  | Match_payload (taker_id: string) (provider_id: string) (taker_user_id: string)
      (provider_user_id: string) (m_size: int) (m_price: int) (taker_side: side)
      (taker_original_limit: int) (taker_done: bool) (provider_done: bool)

record envelope =
  type' :: string
  seq :: int
  payload :: feed_payload

text \<open>What a client connection is sent: a \<^verbatim>\<open>cancel_reject\<close> reply or the body of a
  snapshot.\<close>

type_synonym conn = nat

datatype reply =
    Cancel_reject (target_id: string) (cr_order_id: string) (reject_reason: string)
  | State_reply engine_state

text \<open>
  \<^verbatim>\<open>journal.log(msg, cb)\<close> starts an append to the inbound journal and calls \<^verbatim>\<open>cb\<close> once
  the append has completed (the journal is an external collaborator; appends complete in
  the order they were issued). The closures the source passes as \<^verbatim>\<open>cb\<close> are the two
  constructors of \<open>callback\<close>: the one of the \<^verbatim>\<open>'msg'\<close> listener, and the one of
  \<^verbatim>\<open>write_state\<close> with its local \<^verbatim>\<open>state_num\<close> and its own \<^verbatim>\<open>cb\<close>.
\<close>

datatype write_cb = Listen | Send_state conn

datatype callback = Handle msg | Capture int write_cb

text \<open>The engine together with what it has written: the inbound journal (completed
  appends), the appends still in flight, the outbound journal, the datagrams handed to
  the feed socket, the state files (number and content, latest write first), the reply
  listeners registered on \<^verbatim>\<open>ev\<close>, and what was sent to each connection.\<close>

record world =
  matcher :: matcher
  journal :: "msg list"
  pending :: "(msg \<times> callback) list"
  journal_out :: "envelope list"
  feed :: "envelope list"
  files :: "(int \<times> engine_state) list"
  listeners :: "conn list"
  sent :: "(conn \<times> reply) list"
  listening :: bool

text \<open>\<^verbatim>\<open>send_feed_msg(type, payload)\<close>: stamp \<^verbatim>\<open>self.output_seq\<close>, journal and send the
  message, then \<^verbatim>\<open>++self.output_seq\<close>.\<close>

definition send_feed_msg :: "string \<Rightarrow> feed_payload \<Rightarrow> world \<Rightarrow> world" where
  "send_feed_msg ty pl w =
     (let msg = \<lparr>type' = ty, seq = output_seq (matcher w), payload = pl\<rparr>
      in w\<lparr>journal_out := journal_out w @ [msg],
           feed := feed w @ [msg],
           matcher := (matcher w)\<lparr>output_seq := output_seq (matcher w) + 1\<rparr>\<rparr>)"

text \<open>The listeners \<^verbatim>\<open>order_book.on('add_order' | 'match' | 'remove_order', ...)\<close>.\<close>

fun on_book_event :: "book_event \<Rightarrow> world \<Rightarrow> world" where
  "on_book_event (Add_order x) w =
     send_feed_msg ''order_status''
       (Order_status ''open'' (side x) (id' x) (sender x) (price x) (size' x)) w"
| "on_book_event (Match n t p) w =
     send_feed_msg ''match''
       (Match_payload (id' t) (id' p) (sender t) (sender p) n (price p) (side t) (price t)
          (done' t) (done' p)) w"
| "on_book_event (Remove_order x) w =
     send_feed_msg ''order_status''
       (Done_status (id' x) ''done'' (size' x) (price x) (side x) (sender x)
          (if done' x then ''filled'' else ''cancelled'')) w"

text \<open>A call of \<^verbatim>\<open>self.order_book.add\<close> or \<^verbatim>\<open>remove\<close> from the matcher: the book is
  replaced and each emitted event runs its listener. The listeners touch only the feed
  and \<^verbatim>\<open>output_seq\<close>, never the book.\<close>

definition set_book :: "order_book \<Rightarrow> world \<Rightarrow> world" where
  "set_book b w = w\<lparr>matcher := (matcher w)\<lparr>order_book := b\<rparr>\<rparr>"

definition book_add :: "order \<Rightarrow> world \<Rightarrow> world" where
  "book_add x w =
     (case add x (order_book (matcher w)) of (evs, b) \<Rightarrow> fold on_book_event evs (set_book b w))"

section \<open>The handlers of \<^verbatim>\<open>_get_handler\<close>\<close>

text \<open>\<^verbatim>\<open>msg_handlers['order']\<close>.\<close>

definition order_handler :: "order_data \<Rightarrow> world \<Rightarrow> world" where
  "order_handler pl w =
     (let order = parse pl;
          w1 = send_feed_msg ''order_status''
                 (Order_status ''received'' (side order) (id' order) (sender order)
                    (price order) (size' order)) w
      in book_add order w1)"

text \<open>\<^verbatim>\<open>msg_handlers['cancel']\<close>. \<open>ev\<close> tells whether \<^verbatim>\<open>_get_handler\<close> was given the event
  emitter; \<^verbatim>\<open>ev.emit('reply', ...)\<close> calls the \<^verbatim>\<open>send_reply\<close> of every registered
  connection.\<close>

definition cancel_handler :: "bool \<Rightarrow> cancel_data \<Rightarrow> world \<Rightarrow> world" where
  "cancel_handler ev pl w =
     (let oid = order_id pl; sender = sender_id pl
      in case remove oid sender (order_book (matcher w)) of (result, evs, b) \<Rightarrow>
           let w1 = fold on_book_event evs (set_book b w)
           in case result of
                None \<Rightarrow> w1
              | Some e \<Rightarrow>
                  if ev then
                    w1\<lparr>sent := sent w1 @
                         map (\<lambda>c. (c, Cancel_reject sender oid (message e))) (listeners w1)\<rparr>
                  else w1)"

text \<open>\<^verbatim>\<open>_get_handler(msg, send_feed_msg, ev)\<close> is \<^verbatim>\<open>msg_handlers[msg.type]\<close>: a handler for
  \<^verbatim>\<open>'order'\<close> and \<^verbatim>\<open>'cancel'\<close>, \<^verbatim>\<open>undefined\<close> otherwise.

  The table is an object literal, so the lookup also finds the members that every
  object inherits from \<^verbatim>\<open>Object.prototype\<close>: a message whose type is one of the names
  \<open>inherited\<close> gets that member for a handler, is handed to the journal, and the member is
  called with its payload. What such a call does depends on the member and is not
  modelled: \<open>Msg_other t\<close> stands for a type \<open>t\<close> other than \<^verbatim>\<open>order\<close>, \<^verbatim>\<open>cancel\<close> and
  \<^verbatim>\<open>state\<close> that names no inherited member (\<open>modelled\<close>).\<close>

datatype handler = H_order | H_cancel

fun get_handler :: "msg \<Rightarrow> handler option" where
  "get_handler (Msg_order p) = Some H_order"
| "get_handler (Msg_cancel p) = Some H_cancel"
| "get_handler (Msg_state p) = None"
| "get_handler (Msg_other t) = None"

definition inherited :: "string list" where
  "inherited =
     [''constructor'', ''toString'', ''toLocaleString'', ''valueOf'', ''hasOwnProperty'',
      ''isPrototypeOf'', ''propertyIsEnumerable'', ''__proto__'', ''__defineGetter__'',
      ''__defineSetter__'', ''__lookupGetter__'', ''__lookupSetter__'']"

fun modelled :: "msg \<Rightarrow> bool" where
  "modelled (Msg_other t) = (t \<notin> set ([''order'', ''cancel'', ''state''] @ inherited))"
| "modelled m = True"

datatype exn = TypeError | SyntaxError

text \<open>\<^verbatim>\<open>handler(msg.payload)\<close>, for a handler that \<^verbatim>\<open>_get_handler\<close> returned for the same
  message. Without a payload the cancel handler evaluates \<^verbatim>\<open>payload.order_id\<close> on
  \<^verbatim>\<open>undefined\<close>, a TypeError; the order handler passes \<^verbatim>\<open>undefined\<close> to \<^verbatim>\<open>Order.parse\<close>,
  which reads its fields.\<close>

fun invoke :: "handler \<Rightarrow> bool \<Rightarrow> msg \<Rightarrow> world \<Rightarrow> exn + world" where
  "invoke H_order ev (Msg_order (Some pl)) w = Inr (order_handler pl w)"
| "invoke H_cancel ev (Msg_cancel (Some pl)) w = Inr (cancel_handler ev pl w)"
| "invoke h ev m w = Inl TypeError"

section \<open>Snapshots and the message pipeline (\<^verbatim>\<open>Matcher.prototype.start\<close>)\<close>

text \<open>\<^verbatim>\<open>write_state(cb)\<close>: the marker \<^verbatim>\<open>{type: 'state', payload: state_num}\<close> is handed to
  \<^verbatim>\<open>journal.log\<close> together with the closure that captures and writes the state, and
  \<^verbatim>\<open>++self.state_num\<close> runs at once.\<close>

definition write_state :: "write_cb \<Rightarrow> world \<Rightarrow> world" where
  "write_state cb w =
     (let state_num' = state_num (matcher w)
      in w\<lparr>pending := pending w @ [(Msg_state (Some state_num'), Capture state_num' cb)],
           matcher := (matcher w)\<lparr>state_num := state_num' + 1\<rparr>\<rparr>)"

text \<open>The closure of \<^verbatim>\<open>write_state\<close>, run when the marker has been appended:
  \<^verbatim>\<open>self.state()\<close>, \<^verbatim>\<open>state.state_num = state_num + 1\<close>, \<^verbatim>\<open>fs.writeFile\<close> of the file
  \<^verbatim>\<open>matcher_state.<product>.<state_num>.json\<close> (the entry numbered \<open>state_num'\<close> of \<open>files\<close>),
  then \<^verbatim>\<open>cb(state)\<close>: \<^verbatim>\<open>server.listen\<close> at start-up, \<^verbatim>\<open>ms.send(state)\<close> for a \<^verbatim>\<open>state\<close>
  request.\<close>

definition capture :: "int \<Rightarrow> write_cb \<Rightarrow> world \<Rightarrow> world" where
  "capture state_num' cb w =
     (let st = (state (matcher w))\<lparr>es_state_num := state_num' + 1\<rparr>;
          w1 = w\<lparr>files := (state_num', st) # files w\<rparr>
      in case cb of
           Listen \<Rightarrow> w1\<lparr>listening := True\<rparr>
         | Send_state c \<Rightarrow> w1\<lparr>sent := sent w1 @ [(c, State_reply st)]\<rparr>)"

text \<open>The \<^verbatim>\<open>'msg'\<close> listener of a connection: a message with a handler is handed to
  \<^verbatim>\<open>journal.log\<close> with the closure that will apply it; a \<^verbatim>\<open>state\<close> request takes a
  snapshot; anything else is logged and dropped.\<close>

definition on_msg :: "conn \<Rightarrow> msg \<Rightarrow> world \<Rightarrow> world" where
  "on_msg c m w =
     (case get_handler m of
        None \<Rightarrow> (case m of Msg_state p \<Rightarrow> write_state (Send_state c) w | _ \<Rightarrow> w)
      | Some h \<Rightarrow> w\<lparr>pending := pending w @ [(m, Handle m)]\<rparr>)"

text \<open>The closure of the \<^verbatim>\<open>'msg'\<close> listener, run when the message has been appended: a
  message without payload is logged and dropped, otherwise \<^verbatim>\<open>handler(msg.payload)\<close> with
  the handler obtained with the emitter \<^verbatim>\<open>ev\<close>. (With a payload the handler does not
  throw; the \<open>Inl\<close> branch is never taken.)\<close>

definition handle :: "msg \<Rightarrow> world \<Rightarrow> world" where
  "handle m w =
     (case get_handler m of
        None \<Rightarrow> w
      | Some h \<Rightarrow>
          if \<not> has_payload m then w
          else (case invoke h True m w of Inr w' \<Rightarrow> w' | Inl e \<Rightarrow> w))"

fun run_callback :: "callback \<Rightarrow> world \<Rightarrow> world" where
  "run_callback (Handle m) w = handle m w"
| "run_callback (Capture n cb) w = capture n cb w"

text \<open>The oldest append in flight completes: its record is in the journal, then its
  callback runs.\<close>

definition journal_done :: "world \<Rightarrow> world" where
  "journal_done w =
     (case pending w of
        [] \<Rightarrow> w
      | (r, cb) # rest \<Rightarrow> run_callback cb (w\<lparr>journal := journal w @ [r], pending := rest\<rparr>))"

text \<open>\<^verbatim>\<open>server.on('connection')\<close> registers \<^verbatim>\<open>send_reply\<close> on \<^verbatim>\<open>ev\<close>; \<^verbatim>\<open>socket.on('close')\<close>
  removes it.\<close>

definition on_connection :: "conn \<Rightarrow> world \<Rightarrow> world" where
  "on_connection c w = w\<lparr>listeners := listeners w @ [c]\<rparr>"

definition on_close :: "conn \<Rightarrow> world \<Rightarrow> world" where
  "on_close c w = w\<lparr>listeners := remove1 c (listeners w)\<rparr>"

section \<open>Recovery (\<^verbatim>\<open>Matcher.prototype.recover\<close>)\<close>

text \<open>What the three reads of recovery return: the numbers of the state files of this
  product found by \<^verbatim>\<open>fs.readdir\<close>, the parsed content of a state file, and the records of
  the non-empty lines of the journal file.\<close>

datatype io_error = ENOENT | EIO

record disk =
  readdir :: "io_error + int list"
  read_state :: "int \<Rightarrow> io_error + engine_state"
  read_journal :: "io_error + msg list"

text \<open>A run of callbacks either returns or ends in an uncaught exception; both keep what
  was done until then.\<close>

datatype result = Returned world | Threw exn world

text \<open>``fill up the order book'': \<^verbatim>\<open>order_data.side = 0\<close> (or 1), \<^verbatim>\<open>Order.parse\<close>,
  \<^verbatim>\<open>self.order_book.add(order)\<close>. \<^verbatim>\<open>start\<close> has registered the book listeners before it
  calls \<^verbatim>\<open>recover\<close>, so the events of these calls are published.\<close>

definition load_order :: "side \<Rightarrow> order_data \<Rightarrow> world \<Rightarrow> world" where
  "load_order s order_data w = book_add (parse (order_data\<lparr>side := s\<rparr>)) w"

definition load_state :: "engine_state \<Rightarrow> world \<Rightarrow> world" where
  "load_state st w =
     (let w1 = fold (load_order Buy) (es_bids st) w;
          w2 = fold (load_order Sell) (es_asks st) w1
      in w2\<lparr>matcher := (matcher w2)\<lparr>state_num := es_state_num st,
                                     output_seq := es_output_seq st\<rparr>\<rparr>)"

text \<open>The loop over the lines of the journal: the marker \<^verbatim>\<open>state(journal_state_num)\<close>
  switches playback on; while it is on, a record with a handler is passed to the
  handler, obtained without the emitter \<^verbatim>\<open>ev\<close>, and without a look at the payload.\<close>

fun replay :: "int \<Rightarrow> bool \<Rightarrow> msg list \<Rightarrow> world \<Rightarrow> result" where
  "replay journal_state_num playback [] w = Returned w"
| "replay journal_state_num playback (data # lines) w =
     (if data = Msg_state (Some journal_state_num) then replay journal_state_num True lines w
      else if playback then
        (case get_handler data of
           None \<Rightarrow> replay journal_state_num playback lines w
         | Some h \<Rightarrow>
             (case invoke h False data w of
                Inl e \<Rightarrow> Threw e w
              | Inr w' \<Rightarrow> replay journal_state_num playback lines w'))
      else replay journal_state_num playback lines w)"

text \<open>\<^verbatim>\<open>state_files.sort(function(a, b) { return b.num - a.num; })\<close> and \<^verbatim>\<open>state_files[0]\<close>:
  the greatest number of a non-empty list.\<close>

definition latest :: "int list \<Rightarrow> int" where
  "latest nums = fold max (tl nums) (hd nums)"

text \<open>The chain of \<^verbatim>\<open>recover(send_feed_msg, cb)\<close>. After \<^verbatim>\<open>cb(err)\<close> no step returns: the
  body goes on with an \<^verbatim>\<open>undefined\<close> second argument, and \<^verbatim>\<open>files.forEach\<close>,
  \<^verbatim>\<open>JSON.parse(data)\<close> and \<^verbatim>\<open>data.split\<close> throw.\<close>

definition recover :: "disk \<Rightarrow> (io_error option \<Rightarrow> world \<Rightarrow> world) \<Rightarrow> world \<Rightarrow> result" where
  "recover d cb w =
     (case readdir d of
        Inl err \<Rightarrow> Threw TypeError (cb (Some err) w)
      | Inr state_files \<Rightarrow>
          if state_files = [] then Returned (cb None w)
          else
            (case read_state d (latest state_files) of
               Inl err \<Rightarrow> Threw SyntaxError (cb (Some err) w)
             | Inr st \<Rightarrow>
                 let w1 = load_state st w
                 in case read_journal d of
                      Inl err \<Rightarrow> Threw TypeError (cb (Some err) w1)
                    | Inr lines \<Rightarrow>
                        (case replay (state_num (matcher w1) - 1) False lines w1 of
                           Threw e w2 \<Rightarrow> Threw e w2
                         | Returned w2 \<Rightarrow> Returned (cb None w2))))"

text \<open>\<^verbatim>\<open>start_server\<close> ignores its argument: it writes a snapshot and listens once that is
  done. \<^verbatim>\<open>start\<close> calls it directly with \<^verbatim>\<open>no_recover\<close>, and as the callback of
  \<^verbatim>\<open>recover\<close> otherwise.\<close>

definition start_server :: "world \<Rightarrow> world" where
  "start_server w = write_state Listen w"

definition start :: "bool \<Rightarrow> disk \<Rightarrow> world \<Rightarrow> result" where
  "start no_recover d w =
     (if no_recover then Returned (start_server w)
      else recover d (\<lambda>err. start_server) w)"

section \<open>Runs of the engine\<close>

text \<open>A new process on an empty log directory, and what happens to it: connections open
  and close, messages arrive, journal appends complete.\<close>

definition fresh :: world where
  "fresh = \<lparr>matcher = Matcher, journal = [], pending = [], journal_out = [], feed = [],
            files = [], listeners = [], sent = [], listening = False\<rparr>"

datatype event = Connection conn | Close conn | Message conn msg | Journal_done

fun step :: "event \<Rightarrow> world \<Rightarrow> world" where
  "step (Connection c) w = on_connection c w"
| "step (Close c) w = on_close c w"
| "step (Message c m) w = on_msg c m w"
| "step Journal_done w = journal_done w"

definition run :: "event list \<Rightarrow> world \<Rightarrow> world" where
  "run es w = fold step es w"

text \<open>What a restarted process finds on disk after a run, every read succeeding.\<close>

definition disk_of :: "world \<Rightarrow> disk" where
  "disk_of w = \<lparr>readdir = Inr (map fst (files w)),
                read_state = (\<lambda>n. case map_of (files w) n of
                                     Some st \<Rightarrow> Inr st | None \<Rightarrow> Inl ENOENT),
                read_journal = Inr (journal w)\<rparr>"

text \<open>The process that comes up after a crash: its memory is new, the journal, the
  state files and what went out on the feed remain.\<close>

definition crashed :: "world \<Rightarrow> world" where
  "crashed w = w\<lparr>matcher := Matcher, pending := [], listeners := [], listening := False\<rparr>"

definition restart :: "world \<Rightarrow> result" where
  "restart w = start False (disk_of w) (crashed w)"

section \<open>Notions used to state the properties\<close>

text \<open>The message each book listener publishes, as a pair of type and payload; the
  lemma \<open>on_book_event_publish\<close> below ties it to \<open>on_book_event\<close>.\<close>

fun event_msg :: "book_event \<Rightarrow> string \<times> feed_payload" where
  "event_msg (Add_order x) =
     (''order_status'', Order_status ''open'' (side x) (id' x) (sender x) (price x) (size' x))"
| "event_msg (Match n t p) =
     (''match'', Match_payload (id' t) (id' p) (sender t) (sender p) n (price p) (side t)
        (price t) (done' t) (done' p))"
| "event_msg (Remove_order x) =
     (''order_status'', Done_status (id' x) ''done'' (size' x) (price x) (side x) (sender x)
        (if done' x then ''filled'' else ''cancelled''))"

definition received_msg :: "order_data \<Rightarrow> string \<times> feed_payload" where
  "received_msg pl =
     (''order_status'',
      Order_status ''received'' (side pl) (id' pl) (sender pl) (price pl) (size' pl))"

definition open_msg :: "order \<Rightarrow> string \<times> feed_payload" where
  "open_msg x =
     (''order_status'', Order_status ''open'' (side x) (id' x) (sender x) (price x) (size' x))"

text \<open>Envelopes for a list of messages, numbered from \<open>s\<close>, and the effect of sending
  them one after the other.\<close>

fun envelopes :: "int \<Rightarrow> (string \<times> feed_payload) list \<Rightarrow> envelope list" where
  "envelopes s [] = []"
| "envelopes s (m # ms) = \<lparr>type' = fst m, seq = s, payload = snd m\<rparr> # envelopes (s + 1) ms"

definition publish :: "(string \<times> feed_payload) list \<Rightarrow> world \<Rightarrow> world" where
  "publish ms w =
     w\<lparr>journal_out := journal_out w @ envelopes (output_seq (matcher w)) ms,
       feed := feed w @ envelopes (output_seq (matcher w)) ms,
       matcher := (matcher w)\<lparr>output_seq := output_seq (matcher w) + int (length ms)\<rparr>\<rparr>"

text \<open>What a handler publishes and the book it leaves, as functions of the book alone.\<close>

definition order_out :: "order_data \<Rightarrow> order_book \<Rightarrow> (string \<times> feed_payload) list \<times> order_book" where
  "order_out pl b =
     (received_msg pl # map event_msg (fst (add (parse pl) b)), snd (add (parse pl) b))"

definition cancel_out :: "cancel_data \<Rightarrow> order_book \<Rightarrow> (string \<times> feed_payload) list \<times> order_book" where
  "cancel_out pl b =
     (map event_msg (fst (snd (remove (order_id pl) (sender_id pl) b))),
      snd (snd (remove (order_id pl) (sender_id pl) b)))"

fun handle_out :: "msg \<Rightarrow> order_book \<Rightarrow> (string \<times> feed_payload) list \<times> order_book" where
  "handle_out (Msg_order (Some pl)) b = order_out pl b"
| "handle_out (Msg_cancel (Some pl)) b = cancel_out pl b"
| "handle_out m b = ([], b)"

text \<open>The envelopes that reached the feed between two worlds, and a list of sequence
  numbers that counts up by one from \<open>s\<close>.\<close>

definition published :: "world \<Rightarrow> world \<Rightarrow> envelope list" where
  "published w w' = drop (length (feed w)) (feed w')"

fun numbered_from :: "int \<Rightarrow> int list \<Rightarrow> bool" where
  "numbered_from s [] = True"
| "numbered_from s (x # xs) = (x = s \<and> numbered_from (s + 1) xs)"

definition cont :: "world \<Rightarrow> world \<Rightarrow> bool" where
  "cont w w' \<longleftrightarrow>
     (\<exists>ms. feed w' = feed w @ envelopes (output_seq (matcher w)) ms \<and>
           output_seq (matcher w') = output_seq (matcher w) + int (length ms))"

text \<open>The world a result carries, and the exception it ended in, if any.\<close>

fun world_of :: "result \<Rightarrow> world" where
  "world_of (Returned w) = w"
| "world_of (Threw e w) = w"

fun threw :: "result \<Rightarrow> exn option" where
  "threw (Returned w) = None"
| "threw (Threw e w) = Some e"

text \<open>A snapshot at rest: each side in priority order and the book uncrossed. The order
  that recovery rebuilds from a stored entry.\<close>

definition at_rest :: "engine_state \<Rightarrow> bool" where
  "at_rest st \<longleftrightarrow>
     sorted_wrt (\<lambda>x y. price y \<le> price x) (es_bids st) \<and>
     sorted_wrt (\<lambda>x y. price x \<le> price y) (es_asks st) \<and>
     (\<forall>x \<in> set (es_bids st). \<forall>y \<in> set (es_asks st). price x < price y)"

definition restore :: "side \<Rightarrow> order_data \<Rightarrow> order" where
  "restore s d = parse (d\<lparr>side := s\<rparr>)"

text \<open>A list of sequence numbers that counts up by one from its first element.\<close>

fun consecutive :: "int list \<Rightarrow> bool" where
  "consecutive [] = True"
| "consecutive (x # xs) = numbered_from x (x # xs)"

text \<open>Reading a feed from its start: every envelope that is not a \<^verbatim>\<open>received\<close> status
  names only order ids for which a \<^verbatim>\<open>received\<close> status came before (\<open>seen\<close> are the
  ids received so far). A status and a done envelope name their \<^verbatim>\<open>order_id\<close>, a match its
  taker and its provider.\<close>

fun received_first :: "string list \<Rightarrow> feed_payload list \<Rightarrow> bool" where
  "received_first seen [] = True"
| "received_first seen (Order_status st s i sn pr z # ps) =
     (if st = ''received'' then received_first (i # seen) ps
      else i \<in> set seen \<and> received_first seen ps)"
| "received_first seen (Done_status i st z pr s u r # ps) =
     (i \<in> set seen \<and> received_first seen ps)"
| "received_first seen (Match_payload t p tu pu n pr s l td pd # ps) =
     (t \<in> set seen \<and> p \<in> set seen \<and> received_first seen ps)"

fun seen_after :: "string list \<Rightarrow> feed_payload list \<Rightarrow> string list" where
  "seen_after seen [] = seen"
| "seen_after seen (Order_status st s i sn pr z # ps) =
     (if st = ''received'' then seen_after (i # seen) ps else seen_after seen ps)"
| "seen_after seen (p # ps) = seen_after seen ps"

text \<open>The order ids a book event is about, and the ids of the orders resting in a book.\<close>

fun event_ids :: "book_event \<Rightarrow> string set" where
  "event_ids (Add_order x) = {id' x}"
| "event_ids (Match n t p) = {id' t, id' p}"
| "event_ids (Remove_order x) = {id' x}"

definition book_ids :: "order_book \<Rightarrow> string set" where
  "book_ids b = id' ` set (bids b) \<union> id' ` set (asks b)"



text \<open>What the feed and the book are a function of: the book, \<open>output_seq\<close>, the feed and
  the outbound journal of a world. And the appends in flight as the pipeline issues
  them: a message with the closure that will apply it, or a marker with the closure that
  will capture the state.\<close>

definition view :: "world \<Rightarrow> order_book \<times> int \<times> envelope list \<times> envelope list" where
  "view w = (order_book (matcher w), output_seq (matcher w), feed w, journal_out w)"

fun issued :: "msg \<times> callback \<Rightarrow> bool" where
  "issued (r, Handle m) = (m = r)"
| "issued (r, Capture n cb) = (r = Msg_state (Some n))"

text \<open>The invariant of the book at rest: each side in priority order, the book
  uncrossed, bids on the buy side and asks on the sell side, no resting order done.
  \<open>static\<close> is what matching never changes of a resting order.\<close>

definition book_inv :: "order_book \<Rightarrow> bool" where
  "book_inv b \<longleftrightarrow>
     sorted_wrt (\<lambda>x y. price y \<le> price x) (bids b) \<and>
     sorted_wrt (\<lambda>x y. price x \<le> price y) (asks b) \<and>
     (\<forall>x \<in> set (bids b). \<forall>y \<in> set (asks b). price x < price y) \<and>
     (\<forall>x \<in> set (bids b). side x = Buy \<and> \<not> done' x) \<and>
     (\<forall>y \<in> set (asks b). side y = Sell \<and> \<not> done' y)"

definition static :: "order \<Rightarrow> string \<times> string \<times> side \<times> int \<times> bool" where
  "static x = (id' x, sender x, side x, price x, done' x)"

text \<open>Notions for the equivalence of recovery. A run in which every message is modelled
  and, when it has a handler, also has a payload; an append in flight whose message has
  both; the generations of the snapshots in flight; and the generation of the oldest of them (or
  \<open>state_num\<close>, when none is in flight).\<close>

fun with_payload :: "event \<Rightarrow> bool" where
  "with_payload (Message c m) = ((get_handler m = None \<or> has_payload m) \<and> modelled m)"
| "with_payload e = True"

fun applicable :: "msg \<times> callback \<Rightarrow> bool" where
  "applicable (r, Handle m) = (m = r \<and> get_handler m \<noteq> None \<and> has_payload m)"
| "applicable (r, Capture n cb) = (r = Msg_state (Some n))"

fun caps :: "(msg \<times> callback) list \<Rightarrow> int list" where
  "caps [] = []"
| "caps ((r, Capture n cb) # ps) = n # caps ps"
| "caps ((r, Handle m) # ps) = caps ps"

definition base :: "world \<Rightarrow> int" where
  "base w = state_num (matcher w) - int (length (caps (pending w)))"

text \<open>Book and \<open>output_seq\<close> of a world, the two things recovery has to reproduce.\<close>

definition book_seq :: "world \<Rightarrow> order_book \<times> int" where
  "book_seq w = (order_book (matcher w), output_seq (matcher w))"

text \<open>The invariant of a run: the appends in flight are well formed and the snapshots
  among them carry the generations up to \<open>state_num\<close>; markers and state files written so
  far are of older generations; the journal determines book and \<open>output_seq\<close>; and the
  newest state file, of the generation \<open>n\<close> just before the oldest one in flight, holds the
  state the journal had led to when the marker \<open>state(n)\<close>, which occurs once, was
  appended.\<close>

definition flight_inv :: "world \<Rightarrow> bool" where
  "flight_inv w \<longleftrightarrow>
     list_all applicable (pending w) \<and>
     numbered_from (base w) (caps (pending w)) \<and>
     (\<forall>k. Msg_state (Some k) \<in> set (journal w) \<longrightarrow> k < base w) \<and>
     (\<forall>k \<in> fst ` set (files w). k < base w) \<and>
     list_all (\<lambda>r. get_handler r = None \<or> has_payload r) (journal w)"

definition snapshot_inv :: "world \<Rightarrow> bool" where
  "snapshot_inv w \<longleftrightarrow>
     (if files w = [] then journal w = [] \<and> caps (take 1 (pending w)) \<noteq> [] \<and> base w = 0
      else base w = fst (hd (files w)) + 1 \<and>
           (\<exists>pre post. journal w = pre @ Msg_state (Some (fst (hd (files w)))) # post \<and>
             Msg_state (Some (fst (hd (files w)))) \<notin> set pre \<and>
             Msg_state (Some (fst (hd (files w)))) \<notin> set post \<and>
             (\<forall>k \<in> fst ` set (tl (files w)). k < fst (hd (files w))) \<and>
             snd (hd (files w)) =
               (state (matcher (fold handle pre fresh)))\<lparr>es_state_num := fst (hd (files w)) + 1\<rparr>))"

definition rec_inv :: "world \<Rightarrow> bool" where
  "rec_inv w \<longleftrightarrow>
     flight_inv w \<and> book_seq w = book_seq (fold handle (journal w) fresh) \<and> snapshot_inv w"

text \<open>Several lifetimes of an engine: a run, and for each further list of events a crash,
  a restart with recovery from what is on disk, and the next run. When a restart ends in
  an exception the engine stays down.\<close>

fun lifetimes :: "event list \<Rightarrow> event list list \<Rightarrow> world \<Rightarrow> world" where
  "lifetimes es [] w = run es w"
| "lifetimes es (es' # ess) w =
     (case restart (run es w) of
        Returned w' \<Rightarrow> lifetimes es' ess w'
      | Threw e w' \<Rightarrow> w')"

text \<open>The ids of the orders stored in a snapshot, the ids whose \<^verbatim>\<open>received\<close> status is on
  the feed of a world, and the invariant of the feed extended to the state files.\<close>

definition snap_ids :: "engine_state \<Rightarrow> string set" where
  "snap_ids st = id' ` set (es_bids st) \<union> id' ` set (es_asks st)"

definition seen_ids :: "world \<Rightarrow> string set" where
  "seen_ids w = set (seen_after [] (map payload (feed w)))"

definition feed_inv :: "world \<Rightarrow> bool" where
  "feed_inv w \<longleftrightarrow>
     received_first [] (map payload (feed w)) \<and>
     book_ids (order_book (matcher w)) \<subseteq> seen_ids w \<and>
     (\<forall>f \<in> set (files w). snap_ids (snd f) \<subseteq> seen_ids w)"

section \<open>The scenarios of the specification\<close>

text \<open>An engine started on an empty log directory, after its start-up snapshot; then
  scenarios S1 (an order rests), S2 (partial fill), S3 (cancel), and a snapshot taken
  after S1.\<close>

definition order_A :: order_data where
  "order_A = \<lparr>id' = ''A'', sender = ''u1'', side = Buy, price = 100, size' = 10\<rparr>"

definition order_B :: order_data where
  "order_B = \<lparr>id' = ''B'', sender = ''u2'', side = Sell, price = 100, size' = 4\<rparr>"

definition cancel_A :: cancel_data where
  "cancel_A = \<lparr>order_id = ''A'', sender_id = ''u1''\<rparr>"

definition started :: world where
  "started = journal_done (start_server fresh)"

definition after_S1 :: world where
  "after_S1 = run [Connection 1, Message 1 (Msg_order (Some order_A)), Journal_done] started"

definition after_S2 :: world where
  "after_S2 = run [Message 1 (Msg_order (Some order_B)), Journal_done] after_S1"


definition after_snapshot :: world where
  "after_snapshot = run [Message 1 (Msg_state None), Journal_done] after_S1"

section \<open>Properties\<close>

lemma envelopes_append: "envelopes s (xs @ ys) = envelopes s xs @ envelopes (s + int (length xs)) ys"
  by (induction xs arbitrary: s) (auto simp: algebra_simps)

lemma length_envelopes [simp]: "length (envelopes s ms) = length ms"
  by (induction ms arbitrary: s) auto

lemma numbered_envelopes: "numbered_from s (map seq (envelopes s ms))"
  by (induction ms arbitrary: s) auto

lemma map_payload_envelopes [simp]: "map payload (envelopes s ms) = map snd ms"
  by (induction ms arbitrary: s) auto

lemma publish_Nil [simp]: "publish [] w = w"
  by (simp add: publish_def)

lemma send_feed_msg_publish: "send_feed_msg ty pl w = publish [(ty, pl)] w"
  by (simp add: send_feed_msg_def publish_def Let_def)

lemma publish_publish: "publish ys (publish xs w) = publish (xs @ ys) w"
  by (simp add: publish_def envelopes_append algebra_simps)

lemma on_book_event_publish: "on_book_event ev w = publish [event_msg ev] w"
  by (cases ev) (simp_all add: send_feed_msg_publish)

lemma fold_on_book_event: "fold on_book_event evs w = publish (map event_msg evs) w"
proof (induction evs arbitrary: w)
  case Nil
  then show ?case by simp
next
  case (Cons ev evs)
  then show ?case by (simp add: on_book_event_publish publish_publish)
qed

lemma set_book_publish: "set_book b (publish ms w) = publish ms (set_book b w)"
  by (simp add: set_book_def publish_def)

lemma book_add_eq:
  "book_add x w = set_book (snd (add x (order_book (matcher w))))
                    (publish (map event_msg (fst (add x (order_book (matcher w))))) w)"
  by (simp add: book_add_def fold_on_book_event set_book_publish split: prod.splits)

lemma parse_fields [simp]:
  "side (parse pl) = side pl" "id' (parse pl) = id' pl" "sender (parse pl) = sender pl"
  "price (parse pl) = price pl" "size' (parse pl) = size' pl" "done' (parse pl) = False"
  by (simp_all add: parse_def)

lemma order_handler_eq:
  "order_handler pl w = set_book (snd (order_out pl (order_book (matcher w))))
                          (publish (fst (order_out pl (order_book (matcher w)))) w)"
proof -
  have b: "order_book (matcher (publish ms w)) = order_book (matcher w)" for ms
    by (simp add: publish_def)
  show ?thesis
    by (simp add: order_handler_def Let_def book_add_eq b send_feed_msg_publish publish_publish
        order_out_def received_msg_def)
qed

lemma cancel_handler_eq:
  "cancel_handler ev pl w =
     (let w1 = set_book (snd (cancel_out pl (order_book (matcher w))))
                 (publish (fst (cancel_out pl (order_book (matcher w)))) w)
      in case fst (remove (order_id pl) (sender_id pl) (order_book (matcher w))) of
           None \<Rightarrow> w1
         | Some e \<Rightarrow>
             if ev then w1\<lparr>sent := sent w @ map (\<lambda>c. (c, Cancel_reject (sender_id pl) (order_id pl) (message e)))
                        (listeners w)\<rparr>
             else w1)"
  by (simp add: cancel_handler_def Let_def cancel_out_def fold_on_book_event set_book_publish
      set_book_def publish_def split: prod.splits option.splits)


lemma match_loop_not_crossable:
  "ps = [] \<or> \<not> crossable t (hd ps) \<Longrightarrow> match_loop t ps = ([], t, ps)"
  by (cases ps) auto

lemma insert_order_last:
  "\<forall>y \<in> set ys. \<not> better t y \<Longrightarrow> insert_order t ys = ys @ [t]"
  by (induction ys) auto

lemma add_rest_Buy:
  "side t = Buy \<Longrightarrow> \<not> done' t \<Longrightarrow> asks b = [] \<or> \<not> crossable t (hd (asks b)) \<Longrightarrow>
   add t b = ([Add_order t], \<lparr>bids = insert_order t (bids b), asks = asks b\<rparr>)"
  by (simp add: add_def match_loop_not_crossable)

lemma add_rest_Sell:
  "side t = Sell \<Longrightarrow> \<not> done' t \<Longrightarrow> bids b = [] \<or> \<not> crossable t (hd (bids b)) \<Longrightarrow>
   add t b = ([Add_order t], \<lparr>bids = bids b, asks = insert_order t (asks b)\<rparr>)"
  by (simp add: add_def match_loop_not_crossable)

lemma restore_fields [simp]:
  "side (restore s d) = s" "id' (restore s d) = id' d" "sender (restore s d) = sender d"
  "price (restore s d) = price d" "size' (restore s d) = size' d" "done' (restore s d) = False"
  by (simp_all add: restore_def)

lemma event_msg_Add: "event_msg (Add_order x) = open_msg x"
  by (simp add: open_msg_def)

lemma matcher_publish [simp]:
  "order_book (matcher (publish ms w)) = order_book (matcher w)"
  "state_num (matcher (publish ms w)) = state_num (matcher w)"
  "output_seq (matcher (publish ms w)) = output_seq (matcher w) + int (length ms)"
  by (simp_all add: publish_def)

lemma matcher_set_book [simp]:
  "order_book (matcher (set_book b w)) = b"
  "state_num (matcher (set_book b w)) = state_num (matcher w)"
  "output_seq (matcher (set_book b w)) = output_seq (matcher w)"
  by (simp_all add: set_book_def)

lemma set_book_set_book [simp]: "set_book b (set_book b' w) = set_book b w"
  by (simp add: set_book_def)

lemma load_bids:
  "sorted_wrt (\<lambda>x y. price y \<le> price x) (ys @ xs) \<Longrightarrow>
   order_book (matcher w) = \<lparr>bids = map (restore Buy) ys, asks = []\<rparr> \<Longrightarrow>
   fold (load_order Buy) xs w =
     set_book \<lparr>bids = map (restore Buy) (ys @ xs), asks = []\<rparr>
       (publish (map (\<lambda>d. open_msg (restore Buy d)) xs) w)"
proof (induction xs arbitrary: ys w)
  case Nil
  then show ?case by (simp add: set_book_def)
next
  case (Cons x xs)
  let ?t = "restore Buy x"
  have nb: "\<forall>y \<in> set (map (restore Buy) ys). \<not> better ?t y"
    using Cons.prems(1) by (auto simp: better_def sorted_wrt_append)
  have a: "add ?t (order_book (matcher w)) =
           ([Add_order ?t], \<lparr>bids = map (restore Buy) (ys @ [x]), asks = []\<rparr>)"
    using Cons.prems(2) nb by (simp add: add_rest_Buy insert_order_last)
  have s: "load_order Buy x w =
           set_book \<lparr>bids = map (restore Buy) (ys @ [x]), asks = []\<rparr> (publish [open_msg ?t] w)"
    by (simp add: load_order_def book_add_eq a restore_def[symmetric] open_msg_def)
  have "fold (load_order Buy) xs (load_order Buy x w) =
     set_book \<lparr>bids = map (restore Buy) ((ys @ [x]) @ xs), asks = []\<rparr>
       (publish (map (\<lambda>d. open_msg (restore Buy d)) xs) (load_order Buy x w))"
    using Cons.prems(1) by (intro Cons.IH) (simp_all add: s)
  then show ?case
    by (simp add: s set_book_publish publish_publish)
qed

lemma load_asks:
  "sorted_wrt (\<lambda>x y. price x \<le> price y) (ys @ xs) \<Longrightarrow>
   \<forall>b \<in> set bs. \<forall>a \<in> set (ys @ xs). price b < price a \<Longrightarrow>
   order_book (matcher w) = \<lparr>bids = bs, asks = map (restore Sell) ys\<rparr> \<Longrightarrow>
   fold (load_order Sell) xs w =
     set_book \<lparr>bids = bs, asks = map (restore Sell) (ys @ xs)\<rparr>
       (publish (map (\<lambda>d. open_msg (restore Sell d)) xs) w)"
proof (induction xs arbitrary: ys w)
  case Nil
  then show ?case by (simp add: set_book_def)
next
  case (Cons x xs)
  let ?t = "restore Sell x"
  have nb: "\<forall>y \<in> set (map (restore Sell) ys). \<not> better ?t y"
    using Cons.prems(1) by (auto simp: better_def sorted_wrt_append)
  have nc: "bs = [] \<or> \<not> crossable ?t (hd bs)"
    using Cons.prems(2) by (cases bs) (auto simp: crossable_def)
  have a: "add ?t (order_book (matcher w)) =
           ([Add_order ?t], \<lparr>bids = bs, asks = map (restore Sell) (ys @ [x])\<rparr>)"
    using Cons.prems(3) nb nc by (simp add: add_rest_Sell insert_order_last)
  have s: "load_order Sell x w =
           set_book \<lparr>bids = bs, asks = map (restore Sell) (ys @ [x])\<rparr> (publish [open_msg ?t] w)"
    by (simp add: load_order_def book_add_eq a restore_def[symmetric] open_msg_def)
  have "fold (load_order Sell) xs (load_order Sell x w) =
     set_book \<lparr>bids = bs, asks = map (restore Sell) ((ys @ [x]) @ xs)\<rparr>
       (publish (map (\<lambda>d. open_msg (restore Sell d)) xs) (load_order Sell x w))"
    using Cons.prems(1,2) by (intro Cons.IH) (simp_all add: s)
  then show ?case
    by (simp add: s set_book_publish publish_publish)
qed

lemma load_state_at_rest:
  assumes "at_rest st" and "order_book (matcher w) = OrderBook"
  shows "load_state st w =
     (set_book \<lparr>bids = map (restore Buy) (es_bids st), asks = map (restore Sell) (es_asks st)\<rparr>
        (publish (map (\<lambda>d. open_msg (restore Buy d)) (es_bids st) @
                  map (\<lambda>d. open_msg (restore Sell d)) (es_asks st)) w))
     \<lparr>matcher := \<lparr>state_num = es_state_num st, output_seq = es_output_seq st,
         order_book = \<lparr>bids = map (restore Buy) (es_bids st),
                       asks = map (restore Sell) (es_asks st)\<rparr>\<rparr>\<rparr>"
proof -
  let ?w1 = "fold (load_order Buy) (es_bids st) w"
  have 1: "?w1 = set_book \<lparr>bids = map (restore Buy) ([] @ es_bids st), asks = []\<rparr>
       (publish (map (\<lambda>d. open_msg (restore Buy d)) (es_bids st)) w)"
    using assms by (intro load_bids) (simp_all add: at_rest_def OrderBook_def)
  have 2: "fold (load_order Sell) (es_asks st) ?w1 =
      set_book \<lparr>bids = map (restore Buy) (es_bids st), asks = map (restore Sell) ([] @ es_asks st)\<rparr>
       (publish (map (\<lambda>d. open_msg (restore Sell d)) (es_asks st)) ?w1)"
    using assms by (intro load_asks) (auto simp: at_rest_def 1)
  show ?thesis
    unfolding load_state_def Let_def 2
    by (simp add: 1 set_book_publish publish_publish set_book_def publish_def envelopes_append)
qed


lemma published_publish [simp]:
  "published w (publish ms w) = envelopes (output_seq (matcher w)) ms"
  by (simp add: published_def publish_def)

lemma feed_set_book [simp]: "feed (set_book b w) = feed w"
  by (simp add: set_book_def)

lemma feed_publish [simp]: "feed (publish ms w) = feed w @ envelopes (output_seq (matcher w)) ms"
  by (simp add: publish_def)

lemma to_data_restore [simp]: "to_data (restore s d) = d\<lparr>side := s\<rparr>"
  by (simp add: to_data_def restore_def parse_def)

text \<open>
  \<^bold>\<open>C5.\<close> Loading a snapshot at rest into the empty book of a new process: every stored
  bid and then every stored ask is passed to \<open>add\<close>, none of them matches, and the book
  is the snapshot content, in the stored order. \<open>state_num\<close> and \<open>output_seq\<close> are the
  ones stored. The only events of the load are one \<^verbatim>\<open>add_order\<close> per loaded order, which
  the registered listener publishes as \<^verbatim>\<open>open\<close>; there is no match and no done envelope.
\<close>

theorem C5_load_snapshot:
  assumes "at_rest st" and "order_book (matcher w) = OrderBook"
  shows "order_book (matcher (load_state st w)) =
           \<lparr>bids = map (restore Buy) (es_bids st), asks = map (restore Sell) (es_asks st)\<rparr>
       \<and> es_bids (state (matcher (load_state st w))) = map (\<lambda>d. d\<lparr>side := Buy\<rparr>) (es_bids st)
       \<and> es_asks (state (matcher (load_state st w))) = map (\<lambda>d. d\<lparr>side := Sell\<rparr>) (es_asks st)
       \<and> state_num (matcher (load_state st w)) = es_state_num st
       \<and> output_seq (matcher (load_state st w)) = es_output_seq st
       \<and> map payload (published w (load_state st w)) =
           map (\<lambda>d. Order_status ''open'' Buy (id' d) (sender d) (price d) (size' d)) (es_bids st) @
           map (\<lambda>d. Order_status ''open'' Sell (id' d) (sender d) (price d) (size' d)) (es_asks st)"
  unfolding load_state_at_rest [OF assms]
  by (simp add: state_def published_def open_msg_def comp_def)

theorem C5_load_snapshot_witness:
  "at_rest \<lparr>es_bids = [\<lparr>id' = ''A'', sender = ''u1'', side = Buy, price = 100, size' = 6\<rparr>],
            es_asks = [\<lparr>id' = ''C'', sender = ''u3'', side = Sell, price = 105, size' = 2\<rparr>],
            es_state_num = 2, es_output_seq = 5\<rparr>
   \<and> order_book (matcher fresh) = OrderBook
   \<and> order_book (matcher (load_state
        \<lparr>es_bids = [\<lparr>id' = ''A'', sender = ''u1'', side = Buy, price = 100, size' = 6\<rparr>],
         es_asks = [\<lparr>id' = ''C'', sender = ''u3'', side = Sell, price = 105, size' = 2\<rparr>],
         es_state_num = 2, es_output_seq = 5\<rparr> fresh)) =
       \<lparr>bids = [\<lparr>id' = ''A'', sender = ''u1'', side = Buy, price = 100, size' = 6, done' = False\<rparr>],
        asks = [\<lparr>id' = ''C'', sender = ''u3'', side = Sell, price = 105, size' = 2, done' = False\<rparr>]\<rparr>
   \<and> output_seq (matcher (load_state
        \<lparr>es_bids = [\<lparr>id' = ''A'', sender = ''u1'', side = Buy, price = 100, size' = 6\<rparr>],
         es_asks = [\<lparr>id' = ''C'', sender = ''u3'', side = Sell, price = 105, size' = 2\<rparr>],
         es_state_num = 2, es_output_seq = 5\<rparr> fresh)) = 5"
proof -
  let ?st = "\<lparr>es_bids = [\<lparr>id' = ''A'', sender = ''u1'', side = Buy, price = 100, size' = 6\<rparr>],
            es_asks = [\<lparr>id' = ''C'', sender = ''u3'', side = Sell, price = 105, size' = 2\<rparr>],
            es_state_num = 2, es_output_seq = 5\<rparr>"
  have r: "at_rest ?st" by (simp add: at_rest_def)
  have e: "order_book (matcher fresh) = OrderBook" by (simp add: fresh_def Matcher_def)
  show ?thesis
    using C5_load_snapshot [OF r e] r e by (simp add: restore_def parse_def)
qed

subsection \<open>A failed cancel\<close>

lemma remove_error:
  "fst (remove oid sndr b) = Some e \<Longrightarrow> remove oid sndr b = (Some e, [], b)"
  by (auto simp: remove_def split: option.splits if_splits)

lemma remove_error_iff:
  "fst (remove oid sndr b) = Some e \<longleftrightarrow>
     (case find_order oid (bids b @ asks b) of
        None \<Rightarrow> e = NotFound
      | Some x \<Rightarrow> sender x \<noteq> sndr \<and> e = NotOwner)"
  by (auto simp: remove_def split: option.splits if_splits)

lemma cancel_handler_error:
  assumes "fst (remove (order_id pl) (sender_id pl) (order_book (matcher w))) = Some e"
  shows "cancel_handler ev pl w =
     (if ev then w\<lparr>sent := sent w @
          map (\<lambda>c. (c, Cancel_reject (sender_id pl) (order_id pl) (message e))) (listeners w)\<rparr>
      else w)"
  using remove_error [OF assms]
  by (simp add: cancel_handler_def Let_def set_book_def)

text \<open>
  \<^bold>\<open>C10.\<close> In the replay of recovery the handler is obtained without the emitter. A cancel
  record whose \<open>remove\<close> returns an error then leaves the whole world as it is: no reply,
  no feed envelope, no change of the matcher; the replay goes on with the next record.
\<close>

theorem C10_replay_cancel_failure:
  assumes "fst (remove (order_id pl) (sender_id pl) (order_book (matcher w))) = Some e"
  shows "invoke H_cancel False (Msg_cancel (Some pl)) w = Inr w
       \<and> replay n True (Msg_cancel (Some pl) # lines) w = replay n True lines w"
  by (simp add: cancel_handler_error [OF assms])

theorem C10_replay_cancel_failure_witness:
  "fst (remove ''Z'' ''u9'' (order_book (matcher fresh))) = Some NotFound
   \<and> invoke H_cancel False (Msg_cancel (Some \<lparr>order_id = ''Z'', sender_id = ''u9''\<rparr>)) fresh
       = Inr fresh
   \<and> replay 0 True [Msg_cancel (Some \<lparr>order_id = ''Z'', sender_id = ''u9''\<rparr>)] fresh
       = Returned fresh"
proof -
  let ?pl = "\<lparr>order_id = ''Z'', sender_id = ''u9''\<rparr>"
  have r: "fst (remove (order_id ?pl) (sender_id ?pl) (order_book (matcher fresh))) = Some NotFound"
    by (simp add: remove_def fresh_def Matcher_def OrderBook_def)
  show ?thesis
    using C10_replay_cancel_failure [OF r, of 0 "[]"] r by simp
qed

subsection \<open>Snapshots\<close>

text \<open>
  \<^bold>\<open>C4.\<close> \<open>write_state\<close> with current generation \<open>n = state_num\<close> hands the marker
  \<open>state(n)\<close> to the journal and increments \<open>state_num\<close>, once; it writes neither the
  journal record nor a file itself. When that append completes (it is the oldest one in
  flight), the marker is in the journal and the state captured then is written as file
  \<open>n\<close>: the book, \<open>state_num = n + 1\<close> and the \<open>output_seq\<close> of that moment; the matcher is
  not changed by the capture. With no other append in flight, the two steps together
  append the marker and write file \<open>n\<close> with \<open>state_num = n + 1\<close>.
\<close>

theorem C4_write_state:
  "journal (write_state cb w) = journal w
   \<and> files (write_state cb w) = files w
   \<and> pending (write_state cb w) =
       pending w @ [(Msg_state (Some (state_num (matcher w))), Capture (state_num (matcher w)) cb)]
   \<and> state_num (matcher (write_state cb w)) = state_num (matcher w) + 1
   \<and> output_seq (matcher (write_state cb w)) = output_seq (matcher w)
   \<and> journal (journal_done (w\<lparr>pending := (Msg_state (Some n), Capture n cb) # rest\<rparr>)) =
       journal w @ [Msg_state (Some n)]
   \<and> files (journal_done (w\<lparr>pending := (Msg_state (Some n), Capture n cb) # rest\<rparr>)) =
       (n, \<lparr>es_bids = map to_data (bids (order_book (matcher w))),
            es_asks = map to_data (asks (order_book (matcher w))),
            es_state_num = n + 1, es_output_seq = output_seq (matcher w)\<rparr>) # files w
   \<and> matcher (journal_done (w\<lparr>pending := (Msg_state (Some n), Capture n cb) # rest\<rparr>)) = matcher w
   \<and> pending (journal_done (w\<lparr>pending := (Msg_state (Some n), Capture n cb) # rest\<rparr>)) = rest
   \<and> journal (journal_done (write_state cb (w\<lparr>pending := []\<rparr>))) =
       journal w @ [Msg_state (Some (state_num (matcher w)))]
   \<and> files (journal_done (write_state cb (w\<lparr>pending := []\<rparr>))) =
       (state_num (matcher w),
        \<lparr>es_bids = map to_data (bids (order_book (matcher w))),
         es_asks = map to_data (asks (order_book (matcher w))),
         es_state_num = state_num (matcher w) + 1,
         es_output_seq = output_seq (matcher w)\<rparr>) # files w
   \<and> state_num (matcher (journal_done (write_state cb (w\<lparr>pending := []\<rparr>)))) =
       state_num (matcher w) + 1"
  by (cases cb) (simp_all add: write_state_def journal_done_def capture_def state_def Let_def)

subsection \<open>Read failures during recovery\<close>

lemma recover_readdir_error:
  "readdir d = Inl err \<Longrightarrow> recover d cb w = Threw TypeError (cb (Some err) w)"
  by (simp add: recover_def)

lemma recover_read_state_error:
  "readdir d = Inr fs \<Longrightarrow> fs \<noteq> [] \<Longrightarrow> read_state d (latest fs) = Inl err \<Longrightarrow>
   recover d cb w = Threw SyntaxError (cb (Some err) w)"
  by (simp add: recover_def)

lemma recover_read_journal_error:
  "readdir d = Inr fs \<Longrightarrow> fs \<noteq> [] \<Longrightarrow> read_state d (latest fs) = Inr st \<Longrightarrow>
   read_journal d = Inl err \<Longrightarrow>
   recover d cb w = Threw TypeError (cb (Some err) (load_state st w))"
  by (simp add: recover_def)

text \<open>
  \<^bold>\<open>C9.\<close> The engine is started on a log directory that cannot be read. \<open>recover\<close> calls its
  callback with the error, but the callback is \<open>start_server\<close>, which ignores the error
  and begins the start-up (the marker \<open>state(0)\<close> is handed to the journal, with the
  closure that will listen, and \<open>state_num\<close> is incremented); and \<open>recover\<close> does not return
  after the call: the step goes on with undefined \<^verbatim>\<open>files\<close> and ends in a TypeError.
\<close>

theorem C9_readdir_failure:
  "start False \<lparr>readdir = Inl EIO, read_state = (\<lambda>n. Inl ENOENT), read_journal = Inl ENOENT\<rparr> fresh
     = Threw TypeError
         (fresh\<lparr>pending := [(Msg_state (Some 0), Capture 0 Listen)],
                matcher := Matcher\<lparr>state_num := 1\<rparr>\<rparr>)"
  by (simp add: start_def recover_def start_server_def write_state_def fresh_def Matcher_def)

subsection \<open>What a handler call changes\<close>

lemma handle_cases:
  "handle m w =
     (case m of
        Msg_order (Some pl) \<Rightarrow> order_handler pl w
      | Msg_cancel (Some pl) \<Rightarrow> cancel_handler True pl w
      | _ \<Rightarrow> w)"
  by (cases m) (auto simp: handle_def split: option.splits)

lemma cancel_handler_proj:
  "matcher (cancel_handler ev pl w) =
     matcher (set_book (snd (cancel_out pl (order_book (matcher w))))
                (publish (fst (cancel_out pl (order_book (matcher w)))) w))"
  "feed (cancel_handler ev pl w) =
     feed w @ envelopes (output_seq (matcher w)) (fst (cancel_out pl (order_book (matcher w))))"
  "journal_out (cancel_handler ev pl w) =
     journal_out w @ envelopes (output_seq (matcher w)) (fst (cancel_out pl (order_book (matcher w))))"
  "journal (cancel_handler ev pl w) = journal w"
  "pending (cancel_handler ev pl w) = pending w"
  "files (cancel_handler ev pl w) = files w"
  "listeners (cancel_handler ev pl w) = listeners w"
  "listening (cancel_handler ev pl w) = listening w"
  by (simp_all add: cancel_handler_eq Let_def set_book_def publish_def split: option.splits)

lemma order_handler_proj:
  "matcher (order_handler pl w) =
     matcher (set_book (snd (order_out pl (order_book (matcher w))))
                (publish (fst (order_out pl (order_book (matcher w)))) w))"
  "feed (order_handler pl w) =
     feed w @ envelopes (output_seq (matcher w)) (fst (order_out pl (order_book (matcher w))))"
  "journal_out (order_handler pl w) =
     journal_out w @ envelopes (output_seq (matcher w)) (fst (order_out pl (order_book (matcher w))))"
  "journal (order_handler pl w) = journal w"
  "pending (order_handler pl w) = pending w"
  "files (order_handler pl w) = files w"
  "listeners (order_handler pl w) = listeners w"
  "listening (order_handler pl w) = listening w"
  "sent (order_handler pl w) = sent w"
  by (simp_all add: order_handler_eq set_book_def publish_def)

lemma handle_proj:
  "order_book (matcher (handle m w)) = snd (handle_out m (order_book (matcher w)))"
  "output_seq (matcher (handle m w)) =
     output_seq (matcher w) + int (length (fst (handle_out m (order_book (matcher w)))))"
  "state_num (matcher (handle m w)) = state_num (matcher w)"
  "feed (handle m w) =
     feed w @ envelopes (output_seq (matcher w)) (fst (handle_out m (order_book (matcher w))))"
  "journal_out (handle m w) =
     journal_out w @ envelopes (output_seq (matcher w)) (fst (handle_out m (order_book (matcher w))))"
  "journal (handle m w) = journal w"
  "pending (handle m w) = pending w"
  "files (handle m w) = files w"
  "listeners (handle m w) = listeners w"
  "listening (handle m w) = listening w"
  by (simp_all add: handle_cases order_handler_proj cancel_handler_proj
      split: msg.splits option.splits)

text \<open>The handler of the replay differs from the one of the pipeline only in the
  replies.\<close>

lemma invoke_replay:
  assumes "get_handler m = Some h" and "has_payload m"
  shows "\<exists>w'. invoke h False m w = Inr w' \<and>
     matcher w' = matcher (handle m w) \<and> feed w' = feed (handle m w) \<and>
     journal_out w' = journal_out (handle m w) \<and> journal w' = journal w \<and>
     pending w' = pending w \<and> files w' = files w \<and> listeners w' = listeners w \<and>
     listening w' = listening w \<and> sent w' = sent w"
proof (cases m)
  case (Msg_order p)
  with assms obtain pl where "p = Some pl" "h = H_order" by auto
  with Msg_order show ?thesis
    by (simp add: handle_cases order_handler_proj)
next
  case (Msg_cancel p)
  with assms obtain pl where "p = Some pl" "h = H_cancel" by auto
  with Msg_cancel show ?thesis
    by (simp add: handle_cases cancel_handler_proj)
      (simp add: cancel_handler_eq Let_def set_book_def publish_def split: option.splits)
next
  case (Msg_state p)
  with assms show ?thesis by simp
next
  case (Msg_other t)
  with assms show ?thesis by simp
qed

lemma invoke_no_payload:
  "get_handler m = Some h \<Longrightarrow> \<not> has_payload m \<Longrightarrow> invoke h False m w = Inl TypeError"
  by (cases m) auto

subsection \<open>Sequence numbers\<close>

lemma cont_refl [simp]: "cont w w"
  by (auto simp: cont_def intro: exI [of _ "[]"])

lemma cont_trans: "cont w w' \<Longrightarrow> cont w' w'' \<Longrightarrow> cont w w''"
proof -
  assume "cont w w'" and "cont w' w''"
  then obtain xs ys where
    1: "feed w' = feed w @ envelopes (output_seq (matcher w)) xs"
      "output_seq (matcher w') = output_seq (matcher w) + int (length xs)" and
    2: "feed w'' = feed w' @ envelopes (output_seq (matcher w')) ys"
      "output_seq (matcher w'') = output_seq (matcher w') + int (length ys)"
    by (auto simp: cont_def)
  then have "feed w'' = feed w @ envelopes (output_seq (matcher w)) (xs @ ys)"
    and "output_seq (matcher w'') = output_seq (matcher w) + int (length (xs @ ys))"
    by (simp_all add: envelopes_append)
  then show ?thesis
    unfolding cont_def by blast
qed

lemma cont_same:
  "feed w' = feed w \<Longrightarrow> output_seq (matcher w') = output_seq (matcher w) \<Longrightarrow> cont w w'"
  by (auto simp: cont_def intro: exI [of _ "[]"])

lemma cont_publish: "cont w (publish ms w)"
  by (auto simp: cont_def)

lemma cont_handle: "cont w (handle m w)"
  unfolding cont_def by (rule exI [of _ "fst (handle_out m (order_book (matcher w)))"])
    (simp add: handle_proj)

lemma cont_capture: "cont w (capture n cb w)"
  by (cases cb) (auto intro!: cont_same simp: capture_def Let_def)

lemma cont_journal_done: "cont w (journal_done w)"
proof (cases "pending w")
  case Nil
  then show ?thesis by (simp add: journal_done_def)
next
  case (Cons a rest)
  obtain r cb where a: "a = (r, cb)" by (cases a)
  let ?w1 = "w\<lparr>journal := journal w @ [r], pending := rest\<rparr>"
  have 1: "cont w ?w1" by (rule cont_same) simp_all
  have 2: "cont ?w1 (run_callback cb ?w1)"
    by (cases cb) (simp_all add: cont_handle cont_capture)
  from cont_trans [OF 1 2] show ?thesis
    by (simp add: journal_done_def Cons a)
qed

lemma cont_on_msg: "cont w (on_msg c m w)"
  by (rule cont_same) (auto simp: on_msg_def write_state_def Let_def split: option.splits msg.splits)

lemma cont_step: "cont w (step e w)"
  by (cases e) (auto simp: cont_on_msg cont_journal_done on_connection_def on_close_def
      intro: cont_same)

lemma cont_run: "cont w (run es w)"
proof (induction es arbitrary: w)
  case Nil
  then show ?case by (simp add: run_def)
next
  case (Cons e es)
  have "cont w (step e w)" by (rule cont_step)
  moreover have "cont (step e w) (run es (step e w))" by (rule Cons.IH)
  ultimately have "cont w (run es (step e w))"
    by (rule cont_trans)
  then show ?case by (simp add: run_def)
qed

lemma cont_replay: "cont w (world_of (replay n pb lines w))"
proof (induction lines arbitrary: w pb)
  case Nil
  then show ?case by simp
next
  case (Cons m lines)
  show ?case
  proof (cases "m = Msg_state (Some n)")
    case True
    then show ?thesis using Cons.IH by simp
  next
    case False
    show ?thesis
    proof (cases "pb \<and> get_handler m \<noteq> None")
      case False
      with \<open>m \<noteq> Msg_state (Some n)\<close> show ?thesis
        using Cons.IH by (auto split: option.splits)
    next
      case True
      then obtain h where h: "get_handler m = Some h" and pb: pb by auto
      show ?thesis
      proof (cases "has_payload m")
        case False
        with h pb \<open>m \<noteq> Msg_state (Some n)\<close> show ?thesis
          by (simp add: invoke_no_payload)
      next
        case True
        from invoke_replay [OF h True, of w] obtain w' where
          w': "invoke h False m w = Inr w'" "matcher w' = matcher (handle m w)"
            "feed w' = feed (handle m w)"
          by blast
        have "cont w (handle m w)" by (rule cont_handle)
        then have 1: "cont w w'"
          by (simp add: cont_def w')
        have 2: "cont w' (world_of (replay n pb lines w'))" by (rule Cons.IH)
        from cont_trans [OF 1 2] show ?thesis
          using h pb \<open>m \<noteq> Msg_state (Some n)\<close> w' by simp
      qed
    qed
  qed
qed

lemma cont_published:
  assumes "cont w w'"
  shows "feed w' = feed w @ published w w'"
    and "numbered_from (output_seq (matcher w)) (map seq (published w w'))"
    and "output_seq (matcher w') = output_seq (matcher w) + int (length (published w w'))"
proof -
  from assms obtain ms where
    ms: "feed w' = feed w @ envelopes (output_seq (matcher w)) ms"
      "output_seq (matcher w') = output_seq (matcher w) + int (length ms)"
    by (auto simp: cont_def)
  then have p: "published w w' = envelopes (output_seq (matcher w)) ms"
    by (simp add: published_def)
  show "feed w' = feed w @ published w w'" by (simp add: p ms)
  show "numbered_from (output_seq (matcher w)) (map seq (published w w'))"
    by (simp add: p numbered_envelopes)
  show "output_seq (matcher w') = output_seq (matcher w) + int (length (published w w'))"
    by (simp add: p ms)
qed

subsection \<open>Evaluating the scenarios\<close>

lemmas engine_defs =
  run_def on_msg_def journal_done_def handle_def on_connection_def on_close_def
  write_state_def capture_def state_def start_server_def start_def recover_def
  load_state_def load_order_def latest_def restart_def crashed_def disk_of_def
  order_handler_def cancel_handler_def book_add_def set_book_def send_feed_msg_def
  add_def remove_def crossable_def better_def parse_def to_data_def
  fresh_def Matcher_def OrderBook_def Let_def published_def

lemma started_eq:
  "started = \<lparr>matcher = \<lparr>state_num = 1, output_seq = 0, order_book = \<lparr>bids = [], asks = []\<rparr>\<rparr>,
     journal = [Msg_state (Some 0)], pending = [], journal_out = [], feed = [],
     files = [(0, \<lparr>es_bids = [], es_asks = [], es_state_num = 1, es_output_seq = 0\<rparr>)],
     listeners = [], sent = [], listening = True\<rparr>"
  by (simp add: started_def engine_defs)

lemma after_S1_eq:
  "after_S1 = \<lparr>matcher = \<lparr>state_num = 1, output_seq = 2,
       order_book = \<lparr>bids = [\<lparr>id' = ''A'', sender = ''u1'', side = Buy, price = 100, size' = 10,
                               done' = False\<rparr>], asks = []\<rparr>\<rparr>,
     journal = [Msg_state (Some 0), Msg_order (Some order_A)], pending = [],
     journal_out =
       [\<lparr>type' = ''order_status'', seq = 0,
          payload = Order_status ''received'' Buy ''A'' ''u1'' 100 10\<rparr>,
        \<lparr>type' = ''order_status'', seq = 1,
          payload = Order_status ''open'' Buy ''A'' ''u1'' 100 10\<rparr>],
     feed =
       [\<lparr>type' = ''order_status'', seq = 0,
          payload = Order_status ''received'' Buy ''A'' ''u1'' 100 10\<rparr>,
        \<lparr>type' = ''order_status'', seq = 1,
          payload = Order_status ''open'' Buy ''A'' ''u1'' 100 10\<rparr>],
     files = [(0, \<lparr>es_bids = [], es_asks = [], es_state_num = 1, es_output_seq = 0\<rparr>)],
     listeners = [1], sent = [], listening = True\<rparr>"
  by (simp add: after_S1_def started_eq engine_defs order_A_def)

lemma after_snapshot_eq:
  "after_snapshot = after_S1
     \<lparr>matcher := \<lparr>state_num = 2, output_seq = 2,
         order_book = \<lparr>bids = [\<lparr>id' = ''A'', sender = ''u1'', side = Buy, price = 100,
                                 size' = 10, done' = False\<rparr>], asks = []\<rparr>\<rparr>,
      journal := [Msg_state (Some 0), Msg_order (Some order_A), Msg_state (Some 1)],
      files := [(1, \<lparr>es_bids = [order_A], es_asks = [], es_state_num = 2, es_output_seq = 2\<rparr>),
                (0, \<lparr>es_bids = [], es_asks = [], es_state_num = 1, es_output_seq = 0\<rparr>)],
      sent := [(1, State_reply \<lparr>es_bids = [order_A], es_asks = [], es_state_num = 2,
                                 es_output_seq = 2\<rparr>)]\<rparr>"
  by (simp add: after_snapshot_def after_S1_eq engine_defs order_A_def)


subsection \<open>The numbering of the feed\<close>

lemma cont_start_server: "cont w (start_server w)"
  by (rule cont_same) (simp_all add: start_server_def write_state_def Let_def)

lemma cont_after_load:
  assumes "readdir d = Inr fs" "fs \<noteq> []" "read_state d (latest fs) = Inr st"
    "read_journal d = Inr lines"
  shows "cont (load_state st w) (world_of (start False d w))"
proof -
  let ?w1 = "load_state st w"
  let ?r = "replay (state_num (matcher ?w1) - 1) False lines ?w1"
  have 1: "cont ?w1 (world_of ?r)" by (rule cont_replay)
  have 2: "world_of (start False d w) =
           (case ?r of Threw e w2 \<Rightarrow> w2 | Returned w2 \<Rightarrow> start_server w2)"
    using assms by (simp add: start_def recover_def Let_def split: result.splits)
  show ?thesis
  proof (cases ?r)
    case (Returned w2)
    with 1 2 cont_start_server [of w2] show ?thesis
      by (auto intro: cont_trans)
  next
    case (Threw e w2)
    with 1 2 show ?thesis by simp
  qed
qed

lemma output_seq_load_state [simp]:
  "output_seq (matcher (load_state st w)) = es_output_seq st"
  by (simp add: load_state_def Let_def)

text \<open>
  \<^bold>\<open>C3\<close> (as amended). Each publish stamps the current \<open>output_seq\<close> into its envelope and
  increments it by one. A new matcher starts at 0, and on an engine started on an empty
  directory the feed is numbered 0, 1, 2, ... Whatever world a run starts from, the
  envelopes it publishes count up by one from that world's \<open>output_seq\<close>. In a recovery,
  from the moment \<open>output_seq\<close> has been set from the snapshot, the envelopes of the replay
  and of the run that follows count up by one from the stored \<open>output_seq\<close>.
\<close>

theorem C3_seq_numbering:
  "published w (send_feed_msg ty pl w) = [\<lparr>type' = ty, seq = output_seq (matcher w), payload = pl\<rparr>]
   \<and> output_seq (matcher (send_feed_msg ty pl w)) = output_seq (matcher w) + 1
   \<and> output_seq Matcher = 0
   \<and> numbered_from 0 (map seq (feed (run es (start_server fresh))))
   \<and> numbered_from (output_seq (matcher w)) (map seq (published w (run es w)))
   \<and> (readdir d = Inr fs \<and> fs \<noteq> [] \<and> read_state d (latest fs) = Inr st \<and>
      read_journal d = Inr lines \<longrightarrow>
        numbered_from (es_output_seq st)
          (map seq (published (load_state st w) (run es (world_of (start False d w))))))"
proof (intro conjI impI)
  show "published w (send_feed_msg ty pl w) =
        [\<lparr>type' = ty, seq = output_seq (matcher w), payload = pl\<rparr>]"
    by (simp add: send_feed_msg_publish)
  show "output_seq (matcher (send_feed_msg ty pl w)) = output_seq (matcher w) + 1"
    by (simp add: send_feed_msg_publish)
  show "output_seq Matcher = 0"
    by (simp add: Matcher_def)
  show "numbered_from (output_seq (matcher w)) (map seq (published w (run es w)))"
    by (rule cont_published(2) [OF cont_run])
  show "numbered_from 0 (map seq (feed (run es (start_server fresh))))"
  proof -
    let ?w0 = "start_server fresh"
    have f: "feed ?w0 = []" "output_seq (matcher ?w0) = 0"
      by (simp_all add: start_server_def write_state_def fresh_def Matcher_def Let_def)
    from cont_published(1,2) [OF cont_run [of ?w0 es]] show ?thesis
      by (simp add: f)
  qed
next
  assume a: "readdir d = Inr fs \<and> fs \<noteq> [] \<and> read_state d (latest fs) = Inr st \<and>
      read_journal d = Inr lines"
  then have "cont (load_state st w) (world_of (start False d w))"
    by (intro cont_after_load) auto
  then have "cont (load_state st w) (run es (world_of (start False d w)))"
    using cont_run by (rule cont_trans)
  from cont_published(2) [OF this]
  show "numbered_from (es_output_seq st)
          (map seq (published (load_state st w) (run es (world_of (start False d w)))))"
    by simp
qed

theorem C3_seq_numbering_witness:
  "readdir (disk_of after_snapshot) = Inr [1, 0]
   \<and> read_state (disk_of after_snapshot) (latest [1, 0]) =
       Inr \<lparr>es_bids = [order_A], es_asks = [], es_state_num = 2, es_output_seq = 2\<rparr>
   \<and> read_journal (disk_of after_snapshot) =
       Inr [Msg_state (Some 0), Msg_order (Some order_A), Msg_state (Some 1)]
   \<and> numbered_from 2
       (map seq (published
          (load_state \<lparr>es_bids = [order_A], es_asks = [], es_state_num = 2, es_output_seq = 2\<rparr>
             (crashed after_snapshot))
          (run [Journal_done, Message 2 (Msg_order (Some order_B)), Journal_done]
             (world_of (start False (disk_of after_snapshot) (crashed after_snapshot))))))"
proof -
  let ?st = "\<lparr>es_bids = [order_A], es_asks = [], es_state_num = 2, es_output_seq = 2\<rparr>"
  have 1: "readdir (disk_of after_snapshot) = Inr [1, 0]"
    by (simp add: disk_of_def after_snapshot_eq after_S1_eq)
  have 2: "read_state (disk_of after_snapshot) (latest [1, 0]) = Inr ?st"
    by (simp add: disk_of_def after_snapshot_eq after_S1_eq latest_def)
  have 3: "read_journal (disk_of after_snapshot) =
       Inr [Msg_state (Some 0), Msg_order (Some order_A), Msg_state (Some 1)]"
    by (simp add: disk_of_def after_snapshot_eq after_S1_eq)
  show ?thesis
    using C3_seq_numbering [where d = "disk_of after_snapshot" and fs = "[1, 0]" and st = ?st
        and lines = "[Msg_state (Some 0), Msg_order (Some order_A), Msg_state (Some 1)]"
        and w = "crashed after_snapshot"
        and es = "[Journal_done, Message 2 (Msg_order (Some order_B)), Journal_done]"] 1 2 3
    by simp
qed

text \<open>The claim as stated fails in a lifetime that recovers a non-empty book: after S1
  and a snapshot, the restarted engine publishes the loaded order as \<^verbatim>\<open>open\<close> with
  \<open>seq = 0\<close>, and the next order from \<open>seq = 2\<close> on.\<close>

theorem C3_counterexample:
  "threw (restart after_snapshot) = None
   \<and> map seq (published after_snapshot
        (run [Journal_done, Message 2 (Msg_order (Some order_B)), Journal_done]
           (world_of (restart after_snapshot)))) = [0, 2, 3, 4]
   \<and> \<not> consecutive (map seq (published after_snapshot
        (run [Journal_done, Message 2 (Msg_order (Some order_B)), Journal_done]
           (world_of (restart after_snapshot)))))"
proof -
  have r: "restart after_snapshot = Returned (after_snapshot
     \<lparr>matcher := \<lparr>state_num = 3, output_seq = 2,
         order_book = \<lparr>bids = [\<lparr>id' = ''A'', sender = ''u1'', side = Buy, price = 100,
                                 size' = 10, done' = False\<rparr>], asks = []\<rparr>\<rparr>,
      pending := [(Msg_state (Some 2), Capture 2 Listen)],
      journal_out := journal_out after_S1 @
        [\<lparr>type' = ''order_status'', seq = 0,
           payload = Order_status ''open'' Buy ''A'' ''u1'' 100 10\<rparr>],
      feed := feed after_S1 @
        [\<lparr>type' = ''order_status'', seq = 0,
           payload = Order_status ''open'' Buy ''A'' ''u1'' 100 10\<rparr>],
      listeners := [], listening := False\<rparr>)"
    by (simp add: after_snapshot_eq after_S1_eq engine_defs order_A_def)
  have s: "map seq (published after_snapshot
        (run [Journal_done, Message 2 (Msg_order (Some order_B)), Journal_done]
           (world_of (restart after_snapshot)))) = [0, 2, 3, 4]"
    unfolding r by (simp add: after_snapshot_eq after_S1_eq engine_defs order_B_def)
  show ?thesis
    unfolding s by (simp add: r)
qed

subsection \<open>The matching loop\<close>

text \<open>The loop without its unreachable branch: either the taker is exhausted by the
  head of the opposite side, or the head is exhausted and the loop goes on behind it.\<close>

lemma match_loop_Cons:
  "match_loop t (p # ps) =
    (if \<not> crossable t p then ([], t, p # ps)
     else if size' t < size' p then
       ([Match (size' t) t p, Remove_order (t\<lparr>size' := 0, done' := True\<rparr>)],
        t\<lparr>size' := 0, done' := True\<rparr>, p\<lparr>size' := size' p - size' t\<rparr> # ps)
     else if size' t = size' p then
       ([Match (size' t) t p, Remove_order (p\<lparr>size' := 0, done' := True\<rparr>),
         Remove_order (t\<lparr>size' := 0, done' := True\<rparr>)],
        t\<lparr>size' := 0, done' := True\<rparr>, ps)
     else
       (case match_loop (t\<lparr>size' := size' t - size' p\<rparr>) ps of (evs, t2, rest) \<Rightarrow>
          (Match (size' p) t p # Remove_order (p\<lparr>size' := 0, done' := True\<rparr>) # evs, t2, rest)))"
  by (simp add: Let_def min_def)

declare match_loop.simps(2) [simp del]

lemma match_loop_ids:
  "match_loop t ps = (evs, t', rest) \<Longrightarrow>
     id' t' = id' t \<and> id' ` set rest \<subseteq> id' ` set ps \<and>
     (\<forall>ev \<in> set evs. event_ids ev \<subseteq> insert (id' t) (id' ` set ps))"
proof (induction ps arbitrary: t evs t' rest)
  case Nil
  then show ?case by auto
next
  case (Cons p ps)
  show ?case
  proof (cases "crossable t p \<and> size' p < size' t")
    case False
    with Cons.prems show ?thesis
      by (auto simp: match_loop_Cons split: if_splits)
  next
    case True
    let ?t1 = "t\<lparr>size' := size' t - size' p\<rparr>"
    obtain evs1 t2 rest1 where r: "match_loop ?t1 ps = (evs1, t2, rest1)"
      by (cases "match_loop ?t1 ps") auto
    from Cons.IH [OF r] have ih: "id' t2 = id' t" "id' ` set rest1 \<subseteq> id' ` set ps"
      "\<forall>ev \<in> set evs1. event_ids ev \<subseteq> insert (id' t) (id' ` set ps)"
      by auto
    from Cons.prems True r have e: "evs = Match (size' p) t p #
        Remove_order (p\<lparr>size' := 0, done' := True\<rparr>) # evs1" "t' = t2" "rest = rest1"
      by (auto simp: match_loop_Cons)
    show ?thesis
      using ih unfolding e by auto
  qed
qed

lemma set_insert_order [simp]: "set (insert_order t ps) = insert t (set ps)"
  by (induction ps) auto

lemma add_ids:
  "add t b = (evs, b') \<Longrightarrow>
     book_ids b' \<subseteq> insert (id' t) (book_ids b) \<and>
     (\<forall>ev \<in> set evs. event_ids ev \<subseteq> insert (id' t) (book_ids b))"
proof (cases "side t")
  case Buy
  assume a: "add t b = (evs, b')"
  obtain evs1 t2 rest1 where r: "match_loop t (asks b) = (evs1, t2, rest1)"
    by (cases "match_loop t (asks b)") auto
  from match_loop_ids [OF r] a Buy r show ?thesis
    by (auto simp: add_def book_ids_def split: if_splits) (blast+)?
next
  case Sell
  assume a: "add t b = (evs, b')"
  obtain evs1 t2 rest1 where r: "match_loop t (bids b) = (evs1, t2, rest1)"
    by (cases "match_loop t (bids b)") auto
  from match_loop_ids [OF r] a Sell r show ?thesis
    by (auto simp: add_def book_ids_def split: if_splits) (blast+)?
qed

lemma find_order_Some: "find_order i xs = Some x \<Longrightarrow> x \<in> set xs \<and> id' x = i"
  by (induction xs) (auto split: if_splits)

lemma set_unlink: "set (unlink i xs) \<subseteq> set xs"
  by (induction xs) auto

lemma remove_ids:
  "remove oid sndr b = (r, evs, b') \<Longrightarrow>
     book_ids b' \<subseteq> book_ids b \<and> (\<forall>ev \<in> set evs. event_ids ev \<subseteq> book_ids b)"
  using set_unlink [of oid "bids b"] set_unlink [of oid "asks b"]
  by (auto simp: remove_def book_ids_def split: option.splits if_splits dest!: find_order_Some)


subsection \<open>Runs: every step is at most one handler call\<close>

lemma handle_out_none [simp]: "handle_out (Msg_other t) b = ([], b)"
  by simp

lemma step_effect:
  "\<exists>m. order_book (matcher (step e w)) = snd (handle_out m (order_book (matcher w))) \<and>
       feed (step e w) =
         feed w @ envelopes (output_seq (matcher w)) (fst (handle_out m (order_book (matcher w)))) \<and>
       output_seq (matcher (step e w)) =
         output_seq (matcher w) + int (length (fst (handle_out m (order_book (matcher w)))))"
proof -
  have same: "order_book (matcher w') = order_book (matcher w) \<Longrightarrow> feed w' = feed w \<Longrightarrow>
      output_seq (matcher w') = output_seq (matcher w) \<Longrightarrow>
      \<exists>m. order_book (matcher w') = snd (handle_out m (order_book (matcher w))) \<and>
       feed w' =
         feed w @ envelopes (output_seq (matcher w)) (fst (handle_out m (order_book (matcher w)))) \<and>
       output_seq (matcher w') =
         output_seq (matcher w) + int (length (fst (handle_out m (order_book (matcher w)))))" for w'
    by (rule exI [of _ "Msg_other []"]) simp
  show ?thesis
  proof (cases e)
    case (Connection c)
    then show ?thesis by (intro same) (simp_all add: on_connection_def)
  next
    case (Close c)
    then show ?thesis by (intro same) (simp_all add: on_close_def)
  next
    case (Message c m)
    then show ?thesis
      by (intro same) (auto simp: on_msg_def write_state_def Let_def split: option.splits msg.splits)
  next
    case Journal_done
    show ?thesis
    proof (cases "pending w")
      case Nil
      with Journal_done show ?thesis by (intro same) (simp_all add: journal_done_def)
    next
      case (Cons a rest)
      obtain r cb where a: "a = (r, cb)" by (cases a)
      let ?w1 = "w\<lparr>journal := journal w @ [r], pending := rest\<rparr>"
      have s: "step e w = run_callback cb ?w1"
        by (simp add: Journal_done journal_done_def Cons a)
      show ?thesis
      proof (cases cb)
        case (Handle m)
        show ?thesis
          unfolding s Handle by (rule exI [of _ m]) (simp add: handle_proj)
      next
        case (Capture n c)
        show ?thesis
          unfolding s Capture by (intro same; cases c) (simp_all add: capture_def Let_def)
      qed
    qed
  qed
qed

subsection \<open>The \<^verbatim>\<open>received\<close> status comes first\<close>

lemma received_first_append:
  "received_first seen (xs @ ys) \<longleftrightarrow>
     received_first seen xs \<and> received_first (seen_after seen xs) ys"
  by (induction seen xs rule: received_first.induct) auto

lemma seen_after_append: "seen_after seen (xs @ ys) = seen_after (seen_after seen xs) ys"
  by (induction seen xs rule: seen_after.induct) auto

lemma events_received_first:
  "\<forall>ev \<in> set evs. event_ids ev \<subseteq> set seen \<Longrightarrow>
   received_first seen (map snd (map event_msg evs)) \<and>
   seen_after seen (map snd (map event_msg evs)) = seen"
proof (induction evs)
  case Nil
  then show ?case by simp
next
  case (Cons ev evs)
  then show ?case by (cases ev) auto
qed

lemma handle_out_received_first:
  assumes "book_ids b \<subseteq> set seen"
  shows "received_first seen (map snd (fst (handle_out m b))) \<and>
         book_ids (snd (handle_out m b)) \<subseteq> set (seen_after seen (map snd (fst (handle_out m b))))"
proof (cases m)
  case (Msg_order p)
  show ?thesis
  proof (cases p)
    case None
    with Msg_order assms show ?thesis by simp
  next
    case (Some pl)
    obtain evs b' where a: "add (parse pl) b = (evs, b')" by (cases "add (parse pl) b")
    from add_ids [OF a] assms have
      1: "book_ids b' \<subseteq> set (id' pl # seen)" and
      2: "\<forall>ev \<in> set evs. event_ids ev \<subseteq> set (id' pl # seen)"
      by auto
    from events_received_first [OF 2] 1 show ?thesis
      by (simp add: Msg_order Some order_out_def received_msg_def a)
  qed
next
  case (Msg_cancel p)
  show ?thesis
  proof (cases p)
    case None
    with Msg_cancel assms show ?thesis by simp
  next
    case (Some pl)
    obtain r evs b' where a: "remove (order_id pl) (sender_id pl) b = (r, evs, b')"
      by (cases "remove (order_id pl) (sender_id pl) b") auto
    from remove_ids [OF a] assms have
      1: "book_ids b' \<subseteq> set seen" and
      2: "\<forall>ev \<in> set evs. event_ids ev \<subseteq> set seen"
      by auto
    from events_received_first [OF 2] 1 show ?thesis
      by (simp add: Msg_cancel Some cancel_out_def a)
  qed
next
  case (Msg_state p)
  with assms show ?thesis by simp
next
  case (Msg_other t)
  with assms show ?thesis by simp
qed

subsection \<open>The done envelopes of matching\<close>




lemma after_S2_eq:
  "after_S2 = after_S1
     \<lparr>matcher := \<lparr>state_num = 1, output_seq = 5,
         order_book = \<lparr>bids = [\<lparr>id' = ''A'', sender = ''u1'', side = Buy, price = 100,
                                 size' = 6, done' = False\<rparr>], asks = []\<rparr>\<rparr>,
      journal := [Msg_state (Some 0), Msg_order (Some order_A), Msg_order (Some order_B)],
      journal_out := journal_out after_S1 @
        [\<lparr>type' = ''order_status'', seq = 2,
           payload = Order_status ''received'' Sell ''B'' ''u2'' 100 4\<rparr>,
         \<lparr>type' = ''match'', seq = 3,
           payload = Match_payload ''B'' ''A'' ''u2'' ''u1'' 4 100 Sell 100 False False\<rparr>,
         \<lparr>type' = ''order_status'', seq = 4,
           payload = Done_status ''B'' ''done'' 0 100 Sell ''u2'' ''filled''\<rparr>],
      feed := feed after_S1 @
        [\<lparr>type' = ''order_status'', seq = 2,
           payload = Order_status ''received'' Sell ''B'' ''u2'' 100 4\<rparr>,
         \<lparr>type' = ''match'', seq = 3,
           payload = Match_payload ''B'' ''A'' ''u2'' ''u1'' 4 100 Sell 100 False False\<rparr>,
         \<lparr>type' = ''order_status'', seq = 4,
           payload = Done_status ''B'' ''done'' 0 100 Sell ''u2'' ''filled''\<rparr>]\<rparr>"
  by (simp add: after_S2_def after_S1_eq engine_defs order_B_def match_loop_Cons)

subsection \<open>The feed is a function of the journal\<close>

lemma view_handle: "view w1 = view w2 \<Longrightarrow> view (handle m w1) = view (handle m w2)"
  by (simp add: view_def handle_proj)

lemma fold_handle_snoc: "fold handle (j @ [r]) w = handle r (fold handle j w)"
  by simp

lemma handle_marker [simp]: "handle (Msg_state p) w = w"
  by (simp add: handle_cases)

lemma pending_step:
  "list_all issued (pending w) \<Longrightarrow> list_all issued (pending (step e w))"
proof (cases e)
  case (Message c m)
  assume "list_all issued (pending w)"
  then show ?thesis
    by (auto simp: Message on_msg_def write_state_def Let_def split: option.splits msg.splits)
next
  case Journal_done
  assume a: "list_all issued (pending w)"
  show ?thesis
  proof (cases "pending w")
    case Nil
    then show ?thesis by (simp add: Journal_done journal_done_def)
  next
    case (Cons x rest)
    obtain r cb where x: "x = (r, cb)" by (cases x)
    have c: "pending (capture n k v) = pending v" for n k v
      by (cases k) (simp_all add: capture_def Let_def)
    from a show ?thesis
      by (cases cb) (simp_all add: Journal_done journal_done_def Cons x handle_proj c)
  qed
qed (simp_all add: on_connection_def on_close_def)

lemma journal_view_step:
  assumes "list_all issued (pending w)" and "view w = view (fold handle (journal w) w0)"
  shows "view (step e w) = view (fold handle (journal (step e w)) w0)"
proof (cases e)
  case (Connection c)
  with assms(2) show ?thesis by (simp add: on_connection_def view_def)
next
  case (Close c)
  with assms(2) show ?thesis by (simp add: on_close_def view_def)
next
  case (Message c m)
  with assms(2) show ?thesis
    by (auto simp: on_msg_def write_state_def view_def Let_def split: option.splits msg.splits)
next
  case Journal_done
  show ?thesis
  proof (cases "pending w")
    case Nil
    with assms(2) show ?thesis by (simp add: Journal_done journal_done_def)
  next
    case (Cons x rest)
    obtain r cb where x: "x = (r, cb)" by (cases x)
    let ?w1 = "w\<lparr>journal := journal w @ [r], pending := rest\<rparr>"
    have v1: "view ?w1 = view (fold handle (journal w) w0)"
      using assms(2) by (simp add: view_def)
    show ?thesis
    proof (cases cb)
      case (Handle m)
      with assms(1) Cons x have m: "m = r" by simp
      from view_handle [OF v1, of r] show ?thesis
        by (simp add: Journal_done journal_done_def Cons x Handle m handle_proj)
    next
      case (Capture n k)
      with assms(1) Cons x have r: "r = Msg_state (Some n)" by simp
      have c: "view (capture n k v) = view v" "journal (capture n k v) = journal v" for v
        by (cases k; simp add: capture_def Let_def view_def)+
      from v1 show ?thesis
        by (simp add: Journal_done journal_done_def Cons x Capture r c)
    qed
  qed
qed

lemma journal_view_run:
  assumes "list_all issued (pending w)" and "view w = view (fold handle (journal w) w0)"
  shows "view (run es w) = view (fold handle (journal (run es w)) w0)"
  using assms
proof (induction es arbitrary: w)
  case Nil
  then show ?case by (simp add: run_def)
next
  case (Cons e es)
  from Cons.IH [OF pending_step [OF Cons.prems(1)] journal_view_step [OF Cons.prems]]
  show ?case by (simp add: run_def)
qed

text \<open>
  \<^bold>\<open>C2.\<close> Receiving an order or a cancel only hands it to the journal, with the closure
  that will apply it: the journal, the book, \<open>output_seq\<close> and the feed are untouched. The
  handler runs in the step in which the append completes, on a world whose journal
  already holds the record. Hence, on an engine started on an empty directory, whatever
  happens to it, the book, \<open>output_seq\<close>, the feed and the outbound journal are those
  obtained by applying the records of the inbound journal in order: a message still in
  flight has published nothing.
\<close>

theorem C2_journal_before_apply:
  "on_msg c (Msg_order p) w = w\<lparr>pending := pending w @ [(Msg_order p, Handle (Msg_order p))]\<rparr>
   \<and> on_msg c (Msg_cancel q) w = w\<lparr>pending := pending w @ [(Msg_cancel q, Handle (Msg_cancel q))]\<rparr>
   \<and> journal_done (w\<lparr>pending := (m, Handle m) # rest\<rparr>) =
       handle m (w\<lparr>journal := journal w @ [m], pending := rest\<rparr>)
   \<and> journal (handle m w) = journal w
   \<and> view (run es (start_server fresh)) =
       view (fold handle (journal (run es (start_server fresh))) fresh)"
proof -
  let ?w0 = "start_server fresh"
  have 1: "list_all issued (pending ?w0)"
    by (simp add: start_server_def write_state_def fresh_def Let_def)
  have 2: "view ?w0 = view (fold handle (journal ?w0) fresh)"
    by (simp add: start_server_def write_state_def fresh_def Let_def view_def)
  from journal_view_run [OF 1 2]
  have "view (run es ?w0) = view (fold handle (journal (run es ?w0)) fresh)" .
  then show ?thesis
    by (simp add: on_msg_def journal_done_def handle_proj)
qed

subsection \<open>The book stays at rest\<close>

lemma match_loop_rest:
  "match_loop t ps = (evs, t', rest) \<Longrightarrow>
     (\<exists>k. map static rest = drop k (map static ps)) \<and> side t' = side t \<and> price t' = price t \<and>
     (\<not> done' t' \<longrightarrow> done' t' = done' t \<and> (rest = [] \<or> \<not> crossable t' (hd rest)))"
proof (induction ps arbitrary: t evs t' rest)
  case Nil
  then show ?case by auto
next
  case (Cons p ps)
  show ?case
  proof (cases "crossable t p")
    case False
    with Cons.prems have "evs = []" "t' = t" "rest = p # ps"
      by (auto simp: match_loop_Cons)
    with False show ?thesis
      by (auto intro: exI [of _ 0])
  next
    case c: True
    show ?thesis
    proof (cases "size' t < size' p")
      case True
      with c Cons.prems have e: "t' = t\<lparr>size' := 0, done' := True\<rparr>"
        "rest = p\<lparr>size' := size' p - size' t\<rparr> # ps"
        by (auto simp: match_loop_Cons)
      show ?thesis unfolding e
        by (auto intro: exI [of _ 0] simp: static_def)
    next
      case False
      show ?thesis
      proof (cases "size' t = size' p")
        case True
        with c Cons.prems have e: "t' = t\<lparr>size' := 0, done' := True\<rparr>" "rest = ps"
          by (auto simp: match_loop_Cons)
        show ?thesis unfolding e
          by (auto intro: exI [of _ 1])
      next
        case ne: False
        let ?t1 = "t\<lparr>size' := size' t - size' p\<rparr>"
        obtain evs1 t2 rest1 where r: "match_loop ?t1 ps = (evs1, t2, rest1)"
          by (cases "match_loop ?t1 ps") auto
        from Cons.prems c False ne r have e: "t' = t2" "rest = rest1"
          by (auto simp: match_loop_Cons)
        from Cons.IH [OF r] obtain k where k: "map static rest1 = drop k (map static ps)"
          and ih: "side t2 = side t" "price t2 = price t"
            "\<not> done' t2 \<longrightarrow> done' t2 = done' t \<and> (rest1 = [] \<or> \<not> crossable t2 (hd rest1))"
          by auto
        have "map static rest1 = drop (Suc k) (map static (p # ps))"
          using k by simp
        with ih show ?thesis unfolding e by blast
      qed
    qed
  qed
qed

lemma sorted_wrt_static:
  assumes "map static ys = drop k (map static xs)"
    and "sorted_wrt (\<lambda>x y. P (price x) (price y)) xs"
  shows "sorted_wrt (\<lambda>x y. P (price x) (price y)) ys"
proof -
  have p: "map price zs = map (\<lambda>s. fst (snd (snd (snd s)))) (map static zs)" for zs
    by (simp add: static_def)
  have "sorted_wrt P (map price xs)"
    using assms(2) by (simp add: sorted_wrt_map)
  then have "sorted_wrt P (drop k (map price xs))"
    by (rule sorted_wrt_drop)
  moreover have "map price ys = drop k (map price xs)"
    by (simp only: p assms(1) drop_map)
  ultimately have "sorted_wrt P (map price ys)"
    by simp
  then show ?thesis
    by (simp add: sorted_wrt_map)
qed

lemma set_static:
  assumes "map static ys = drop k (map static xs)" and "y \<in> set ys"
  shows "\<exists>x \<in> set xs. static y = static x"
proof -
  from assms(2) have "static y \<in> set (map static ys)" by simp
  then have "static y \<in> set (map static xs)"
    unfolding assms(1) by (rule in_set_dropD)
  then show ?thesis by auto
qed

lemma static_fields:
  "static y = static x \<Longrightarrow> price y = price x \<and> side y = side x \<and> done' y = done' x \<and> id' y = id' x"
  by (simp add: static_def)

lemma sorted_insert_order_Buy:
  "side t = Buy \<Longrightarrow> sorted_wrt (\<lambda>x y. price y \<le> price x) ps \<Longrightarrow>
   sorted_wrt (\<lambda>x y. price y \<le> price x) (insert_order t ps)"
  by (induction ps) (auto simp: better_def)

lemma sorted_insert_order_Sell:
  "side t = Sell \<Longrightarrow> sorted_wrt (\<lambda>x y. price x \<le> price y) ps \<Longrightarrow>
   sorted_wrt (\<lambda>x y. price x \<le> price y) (insert_order t ps)"
  by (induction ps) (auto simp: better_def)

lemma hd_least:
  "sorted_wrt (\<lambda>x y. P (price x) (price y)) xs \<Longrightarrow> y \<in> set xs \<Longrightarrow> y = hd xs \<or> P (price (hd xs)) (price y)"
  by (cases xs) auto

lemma book_inv_add:
  assumes inv: "book_inv b" and nd: "\<not> done' t"
  shows "book_inv (snd (add t b))"
proof (cases "side t")
  case Buy
  obtain evs t' rest where r: "match_loop t (asks b) = (evs, t', rest)"
    by (cases "match_loop t (asks b)") auto
  from match_loop_rest [OF r] obtain k where
    k: "map static rest = drop k (map static (asks b))" and
    t': "side t' = Buy" "price t' = price t" and
    nc: "\<not> done' t' \<Longrightarrow> rest = [] \<or> \<not> crossable t' (hd rest)"
    using Buy by auto
  have srest: "sorted_wrt (\<lambda>x y. price x \<le> price y) rest"
    using sorted_wrt_static [OF k, of "(\<le>)"] inv by (simp add: book_inv_def)
  have from_asks: "\<exists>x \<in> set (asks b). static y = static x" if "y \<in> set rest" for y
    using set_static [OF k that] .
  have rest_ok: "\<forall>y \<in> set rest. side y = Sell \<and> \<not> done' y"
    using from_asks inv by (fastforce simp: book_inv_def dest: static_fields)
  have unc: "\<forall>x \<in> set (bids b). \<forall>y \<in> set rest. price x < price y"
    using from_asks inv by (fastforce simp: book_inv_def dest: static_fields)
  show ?thesis
  proof (cases "done' t'")
    case True
    with Buy r have "snd (add t b) = b\<lparr>asks := rest\<rparr>" by (simp add: add_def)
    with inv srest rest_ok unc show ?thesis by (simp add: book_inv_def)
  next
    case False
    with Buy r have a: "snd (add t b) = \<lparr>bids = insert_order t' (bids b), asks = rest\<rparr>"
      by (simp add: add_def)
    have below: "price t' < price y" if y: "y \<in> set rest" for y
    proof -
      from y nc [OF False] have h: "\<not> crossable t' (hd rest)" by auto
      then have "price t' < price (hd rest)"
        using t' by (simp add: crossable_def)
      with hd_least [OF srest y] show ?thesis by auto
    qed
    from inv False t' srest rest_ok unc below show ?thesis
      by (auto simp: a book_inv_def sorted_insert_order_Buy)
  qed
next
  case Sell
  obtain evs t' rest where r: "match_loop t (bids b) = (evs, t', rest)"
    by (cases "match_loop t (bids b)") auto
  from match_loop_rest [OF r] obtain k where
    k: "map static rest = drop k (map static (bids b))" and
    t': "side t' = Sell" "price t' = price t" and
    nc: "\<not> done' t' \<Longrightarrow> rest = [] \<or> \<not> crossable t' (hd rest)"
    using Sell by auto
  have srest: "sorted_wrt (\<lambda>x y. price y \<le> price x) rest"
    using sorted_wrt_static [OF k, of "\<lambda>a b. b \<le> a"] inv by (simp add: book_inv_def)
  have from_bids: "\<exists>x \<in> set (bids b). static y = static x" if "y \<in> set rest" for y
    using set_static [OF k that] .
  have rest_ok: "\<forall>y \<in> set rest. side y = Buy \<and> \<not> done' y"
    using from_bids inv by (fastforce simp: book_inv_def dest: static_fields)
  have unc: "\<forall>x \<in> set rest. \<forall>y \<in> set (asks b). price x < price y"
    using from_bids inv by (fastforce simp: book_inv_def dest: static_fields)
  show ?thesis
  proof (cases "done' t'")
    case True
    with Sell r have "snd (add t b) = b\<lparr>bids := rest\<rparr>" by (simp add: add_def)
    with inv srest rest_ok unc show ?thesis by (simp add: book_inv_def)
  next
    case False
    with Sell r have a: "snd (add t b) = \<lparr>bids = rest, asks = insert_order t' (asks b)\<rparr>"
      by (simp add: add_def)
    have above: "price y < price t'" if y: "y \<in> set rest" for y
    proof -
      from y nc [OF False] have h: "\<not> crossable t' (hd rest)" by auto
      then have "price (hd rest) < price t'"
        using t' by (simp add: crossable_def)
      with hd_least [OF srest y] show ?thesis by auto
    qed
    from inv False t' srest rest_ok unc above show ?thesis
      by (auto simp: a book_inv_def sorted_insert_order_Sell)
  qed
qed

lemma sorted_wrt_unlink: "sorted_wrt P xs \<Longrightarrow> sorted_wrt P (unlink i xs)"
proof (induction xs)
  case Nil
  then show ?case by simp
next
  case (Cons x xs)
  then show ?case
    using set_unlink [of i xs] by auto
qed

lemma book_inv_remove: "book_inv b \<Longrightarrow> book_inv (snd (snd (remove oid sndr b)))"
  using set_unlink [of oid "bids b"] set_unlink [of oid "asks b"]
  by (auto simp: remove_def book_inv_def sorted_wrt_unlink split: option.splits)

lemma book_inv_handle_out: "book_inv b \<Longrightarrow> book_inv (snd (handle_out m b))"
proof (cases m)
  case (Msg_order p)
  assume "book_inv b"
  then show ?thesis
    by (cases p) (simp_all add: Msg_order order_out_def book_inv_add)
next
  case (Msg_cancel p)
  assume "book_inv b"
  then show ?thesis
    by (cases p) (simp_all add: Msg_cancel cancel_out_def book_inv_remove)
qed simp_all

lemma book_inv_fold_handle:
  "book_inv (order_book (matcher w)) \<Longrightarrow> book_inv (order_book (matcher (fold handle j w)))"
proof (induction j arbitrary: w)
  case Nil
  then show ?case by simp
next
  case (Cons m j)
  from Cons.prems have "book_inv (order_book (matcher (handle m w)))"
    by (simp add: handle_proj book_inv_handle_out)
  from Cons.IH [OF this] show ?case by simp
qed

lemma book_inv_OrderBook [simp]: "book_inv OrderBook"
  by (simp add: book_inv_def OrderBook_def)

subsection \<open>The invariant of a run\<close>

lemma caps_append: "caps (xs @ ys) = caps xs @ caps ys"
  by (induction xs rule: caps.induct) auto

lemma numbered_from_append:
  "numbered_from s (xs @ ys) \<longleftrightarrow> numbered_from s xs \<and> numbered_from (s + int (length xs)) ys"
  by (induction xs arbitrary: s) (auto simp: algebra_simps)

lemma capture_proj [simp]:
  "journal (capture n k w) = journal w"
  "pending (capture n k w) = pending w"
  "matcher (capture n k w) = matcher w"
  "files (capture n k w) = (n, (state (matcher w))\<lparr>es_state_num := n + 1\<rparr>) # files w"
  by (cases k; simp add: capture_def Let_def)+

lemma state_book_seq:
  "book_seq w1 = book_seq w2 \<Longrightarrow>
   (state (matcher w1))\<lparr>es_state_num := n\<rparr> = (state (matcher w2))\<lparr>es_state_num := n\<rparr>"
  by (simp add: book_seq_def state_def)

lemma book_seq_handle:
  "book_seq w1 = book_seq w2 \<Longrightarrow> book_seq (handle m w1) = book_seq (handle m w2)"
  by (simp add: book_seq_def handle_proj)

lemma book_seq_fold_handle:
  "book_seq w1 = book_seq w2 \<Longrightarrow> book_seq (fold handle j w1) = book_seq (fold handle j w2)"
proof (induction j arbitrary: w1 w2)
  case Nil
  then show ?case by simp
next
  case (Cons m j)
  from Cons.IH [OF book_seq_handle [OF Cons.prems]] show ?case by simp
qed

lemma snapshot_inv_cong:
  assumes "snapshot_inv w" and "files w' = files w" and "journal w' = journal w"
    and "base w' = base w"
    and "files w = [] \<Longrightarrow> caps (take 1 (pending w')) \<noteq> []"
  shows "snapshot_inv w'"
proof (cases "files w = []")
  case True
  with assms show ?thesis by (simp add: snapshot_inv_def)
next
  case False
  with assms(1) have "base w = fst (hd (files w)) + 1 \<and>
      (\<exists>pre post. journal w = pre @ Msg_state (Some (fst (hd (files w)))) # post \<and>
             Msg_state (Some (fst (hd (files w)))) \<notin> set pre \<and>
             Msg_state (Some (fst (hd (files w)))) \<notin> set post \<and>
             (\<forall>k \<in> fst ` set (tl (files w)). k < fst (hd (files w))) \<and>
             snd (hd (files w)) =
               (state (matcher (fold handle pre fresh)))\<lparr>es_state_num := fst (hd (files w)) + 1\<rparr>)"
    by (simp add: snapshot_inv_def)
  with False show ?thesis
    unfolding snapshot_inv_def assms(2,3,4) by simp
qed

lemma snapshot_inv_head:
  "snapshot_inv w \<Longrightarrow> files w = [] \<Longrightarrow> caps (take (Suc 0) (pending w)) \<noteq> []"
  by (simp add: snapshot_inv_def)

lemma flight_inv_cong:
  assumes "flight_inv w" and "pending w' = pending w" and "journal w' = journal w"
    and "files w' = files w" and "state_num (matcher w') = state_num (matcher w)"
  shows "flight_inv w'"
proof -
  have "base w' = base w" using assms by (simp add: base_def)
  with assms show ?thesis by (simp add: flight_inv_def)
qed

lemma rec_inv_message:
  assumes inv: "rec_inv w" and p: "get_handler m = None \<or> has_payload m"
  shows "rec_inv (on_msg c m w)"
proof (cases "get_handler m")
  case (Some h)
  then have s: "on_msg c m w = w\<lparr>pending := pending w @ [(m, Handle m)]\<rparr>"
    by (simp add: on_msg_def)
  have b: "base (on_msg c m w) = base w"
    unfolding s by (simp add: base_def caps_append)
  have t: "files w = [] \<Longrightarrow> caps (take 1 (pending w @ [(m, Handle m)])) \<noteq> []"
    using inv by (cases "pending w") (auto simp: rec_inv_def snapshot_inv_def)
  have 1: "flight_inv (on_msg c m w)"
    using inv p Some unfolding s by (simp add: rec_inv_def flight_inv_def base_def caps_append)
  have 2: "book_seq (on_msg c m w) = book_seq (fold handle (journal (on_msg c m w)) fresh)"
    using inv unfolding s by (simp add: rec_inv_def book_seq_def)
  have 3: "snapshot_inv (on_msg c m w)"
    by (rule snapshot_inv_cong [of w]) (use inv t b in \<open>simp_all add: rec_inv_def s\<close>)
  from 1 2 3 show ?thesis by (simp add: rec_inv_def)
next
  case None
  show ?thesis
  proof (cases m)
    case (Msg_state q)
    let ?n = "state_num (matcher w)"
    let ?x = "(Msg_state (Some ?n), Capture ?n (Send_state c))"
    have s: "on_msg c m w = w\<lparr>pending := pending w @ [?x],
                matcher := (matcher w)\<lparr>state_num := ?n + 1\<rparr>\<rparr>"
      by (simp add: on_msg_def Msg_state write_state_def Let_def)
    have b: "base (on_msg c m w) = base w"
      unfolding s by (simp add: base_def caps_append)
    have t: "files w = [] \<Longrightarrow> caps (take 1 (pending w @ [?x])) \<noteq> []"
      using inv by (cases "pending w") (auto simp: rec_inv_def snapshot_inv_def)
    have n: "numbered_from (base w) (caps (pending w @ [?x]))"
      using inv by (simp add: rec_inv_def flight_inv_def caps_append numbered_from_append base_def)
    have 1: "flight_inv (on_msg c m w)"
      unfolding flight_inv_def b using inv n unfolding s
      by (simp add: rec_inv_def flight_inv_def)
    have 2: "book_seq (on_msg c m w) = book_seq (fold handle (journal (on_msg c m w)) fresh)"
      using inv unfolding s by (simp add: rec_inv_def book_seq_def)
    have 3: "snapshot_inv (on_msg c m w)"
      by (rule snapshot_inv_cong [of w]) (use inv t b in \<open>simp_all add: rec_inv_def s\<close>)
    from 1 2 3 show ?thesis by (simp add: rec_inv_def)
  next
    case (Msg_other t)
    with inv show ?thesis by (simp add: on_msg_def)
  next
    case (Msg_order q)
    with None show ?thesis by simp
  next
    case (Msg_cancel q)
    with None show ?thesis by simp
  qed
qed

lemma rec_inv_handle_done:
  assumes inv: "rec_inv w" and pw: "pending w = (r, Handle m) # rest"
  shows "rec_inv (handle m (w\<lparr>journal := journal w @ [r], pending := rest\<rparr>))"
proof -
  let ?w1 = "w\<lparr>journal := journal w @ [r], pending := rest\<rparr>"
  let ?w' = "handle m ?w1"
  from inv pw have m: "m = r" and h: "get_handler r \<noteq> None" and hp: "has_payload r"
    by (auto simp: rec_inv_def flight_inv_def)
  from h have nm: "r \<noteq> Msg_state (Some k)" for k by auto
  have b: "base ?w' = base w"
    by (simp add: base_def handle_proj pw)
  have f: "files w \<noteq> []"
    using inv pw by (auto simp: rec_inv_def snapshot_inv_def)
  have 1: "flight_inv ?w'"
    unfolding flight_inv_def b using inv pw nm hp
    by (auto simp: rec_inv_def flight_inv_def handle_proj)
  have 2: "book_seq ?w' = book_seq (fold handle (journal ?w') fresh)"
  proof -
    have "book_seq ?w1 = book_seq (fold handle (journal w) fresh)"
      using inv by (simp add: rec_inv_def book_seq_def)
    from book_seq_handle [OF this, of r] show ?thesis by (simp add: m handle_proj)
  qed
  from inv f obtain pre post where j: "journal w = pre @ Msg_state (Some (fst (hd (files w)))) # post"
    "Msg_state (Some (fst (hd (files w)))) \<notin> set pre"
    "Msg_state (Some (fst (hd (files w)))) \<notin> set post"
    "\<forall>k \<in> fst ` set (tl (files w)). k < fst (hd (files w))"
    "snd (hd (files w)) =
       (state (matcher (fold handle pre fresh)))\<lparr>es_state_num := fst (hd (files w)) + 1\<rparr>"
    and hb: "base w = fst (hd (files w)) + 1"
    unfolding rec_inv_def snapshot_inv_def by auto
  have F: "\<exists>pre post. journal w @ [r] = pre @ Msg_state (Some (fst (hd (files w)))) # post \<and>
             Msg_state (Some (fst (hd (files w)))) \<notin> set pre \<and>
             Msg_state (Some (fst (hd (files w)))) \<notin> set post \<and>
             (\<forall>k \<in> fst ` set (tl (files w)). k < fst (hd (files w))) \<and>
             snd (hd (files w)) =
               (state (matcher (fold handle pre fresh)))\<lparr>es_state_num := fst (hd (files w)) + 1\<rparr>"
    by (rule exI [of _ pre], rule exI [of _ "post @ [r]"]) (use j nm in auto)
  have 3: "snapshot_inv ?w'"
    unfolding snapshot_inv_def b using f F hb by (simp add: handle_proj)
  from 1 2 3 show ?thesis by (simp add: rec_inv_def)
qed

lemma rec_inv_capture_done:
  assumes inv: "rec_inv w" and pw: "pending w = (r, Capture n k) # rest"
  shows "rec_inv (capture n k (w\<lparr>journal := journal w @ [r], pending := rest\<rparr>))"
proof -
  let ?w1 = "w\<lparr>journal := journal w @ [r], pending := rest\<rparr>"
  let ?w' = "capture n k ?w1"
  from inv pw have r: "r = Msg_state (Some n)" and nb: "n = base w"
    by (auto simp: rec_inv_def flight_inv_def)
  have b: "base ?w' = base w + 1"
    by (simp add: base_def pw)
  have v0: "book_seq w = book_seq (fold handle (journal w) fresh)"
    using inv by (simp add: rec_inv_def)
  have 1: "flight_inv ?w'"
    unfolding flight_inv_def b using inv pw
    by (auto simp: rec_inv_def flight_inv_def)
  have 2: "book_seq ?w' = book_seq (fold handle (journal ?w') fresh)"
    using v0 by (simp add: r book_seq_def handle_cases)
  have old: "Msg_state (Some n) \<notin> set (journal w)" "\<forall>k \<in> fst ` set (files w). k < n"
    using inv by (auto simp: rec_inv_def flight_inv_def nb)
  have st: "(state (matcher w))\<lparr>es_state_num := n + 1\<rparr> =
            (state (matcher (fold handle (journal w) fresh)))\<lparr>es_state_num := n + 1\<rparr>"
    by (rule state_book_seq [OF v0])
  have F: "\<exists>pre post. journal w @ [r] = pre @ Msg_state (Some n) # post \<and>
             Msg_state (Some n) \<notin> set pre \<and> Msg_state (Some n) \<notin> set post \<and>
             (\<forall>k \<in> fst ` set (files w). k < n) \<and>
             (state (matcher w))\<lparr>es_state_num := n + 1\<rparr> =
               (state (matcher (fold handle pre fresh)))\<lparr>es_state_num := n + 1\<rparr>"
    by (rule exI [of _ "journal w"], rule exI [of _ "[]"]) (use old st r in simp)
  have 3: "snapshot_inv ?w'"
    unfolding snapshot_inv_def b using F nb by simp
  from 1 2 3 show ?thesis by (simp add: rec_inv_def)
qed

lemma rec_inv_step:
  assumes inv: "rec_inv w" and p: "with_payload e"
  shows "rec_inv (step e w)"
proof (cases e)
  case (Connection c)
  have "flight_inv (on_connection c w)"
    by (rule flight_inv_cong [of w]) (use inv in \<open>simp_all add: rec_inv_def on_connection_def\<close>)
  moreover have "snapshot_inv (on_connection c w)"
    by (rule snapshot_inv_cong [of w])
      (use inv in \<open>simp_all add: rec_inv_def snapshot_inv_head on_connection_def base_def\<close>)
  ultimately show ?thesis
    using inv by (simp add: Connection rec_inv_def) (simp add: on_connection_def book_seq_def)
next
  case (Close c)
  have "flight_inv (on_close c w)"
    by (rule flight_inv_cong [of w]) (use inv in \<open>simp_all add: rec_inv_def on_close_def\<close>)
  moreover have "snapshot_inv (on_close c w)"
    by (rule snapshot_inv_cong [of w])
      (use inv in \<open>simp_all add: rec_inv_def snapshot_inv_head on_close_def base_def\<close>)
  ultimately show ?thesis
    using inv by (simp add: Close rec_inv_def) (simp add: on_close_def book_seq_def)
next
  case (Message c m)
  with p rec_inv_message [OF inv, of m c] show ?thesis by simp
next
  case Journal_done
  show ?thesis
  proof (cases "pending w")
    case Nil
    with inv show ?thesis by (simp add: Journal_done journal_done_def)
  next
    case (Cons x rest)
    obtain r cb where x: "x = (r, cb)" by (cases x)
    show ?thesis
    proof (cases cb)
      case (Handle m)
      from rec_inv_handle_done [OF inv, of r m rest] show ?thesis
        by (simp add: Journal_done journal_done_def Cons x Handle)
    next
      case (Capture n k)
      from rec_inv_capture_done [OF inv, of r n k rest] show ?thesis
        by (simp add: Journal_done journal_done_def Cons x Capture)
    qed
  qed
qed

lemma rec_inv_run: "rec_inv w \<Longrightarrow> list_all with_payload es \<Longrightarrow> rec_inv (run es w)"
proof (induction es arbitrary: w)
  case Nil
  then show ?case by (simp add: run_def)
next
  case (Cons e es)
  from Cons.prems have "rec_inv (step e w)" by (simp add: rec_inv_step)
  from Cons.IH [OF this] Cons.prems(2) show ?case by (simp add: run_def)
qed

lemma rec_inv_start: "rec_inv (start_server fresh)"
  by (simp add: rec_inv_def flight_inv_def snapshot_inv_def start_server_def write_state_def
      fresh_def Matcher_def base_def book_seq_def Let_def)

subsection \<open>Recovery after a run\<close>

lemma latest_head: "\<forall>k \<in> set ks. k < n \<Longrightarrow> latest (n # ks) = n"
proof -
  have "\<forall>k \<in> set ks. k \<le> m \<Longrightarrow> fold max ks m = m" for m :: int
    by (induction ks) (auto simp: max_def)
  then show "\<forall>k \<in> set ks. k < n \<Longrightarrow> latest (n # ks) = n"
    by (simp add: latest_def) (metis less_imp_le)
qed

lemma restore_to_data:
  "side x = s \<Longrightarrow> \<not> done' x \<Longrightarrow> restore s (to_data x) = x"
  by (simp add: restore_def to_data_def parse_def)

lemma at_rest_state:
  "book_inv (order_book m) \<Longrightarrow> at_rest ((state m)\<lparr>es_state_num := k\<rparr>)"
  by (simp add: at_rest_def book_inv_def state_def sorted_wrt_map to_data_def)

lemma restore_state:
  assumes "book_inv (order_book m)"
  shows "\<lparr>bids = map (restore Buy) (es_bids ((state m)\<lparr>es_state_num := k\<rparr>)),
          asks = map (restore Sell) (es_asks ((state m)\<lparr>es_state_num := k\<rparr>))\<rparr> = order_book m"
proof -
  have "map (restore Buy) (map to_data (bids (order_book m))) = bids (order_book m)"
    using assms by (simp add: book_inv_def restore_to_data map_idI)
  moreover have "map (restore Sell) (map to_data (asks (order_book m))) = asks (order_book m)"
    using assms by (simp add: book_inv_def restore_to_data map_idI)
  ultimately show ?thesis
    by (simp add: state_def)
qed

lemma replay_skip:
  "Msg_state (Some n) \<notin> set pre \<Longrightarrow> replay n False (pre @ lines) w = replay n False lines w"
  by (induction pre) auto

text \<open>The replay of records that all have their payload returns; it leaves the book and
  \<open>output_seq\<close> that the pipeline's handlers leave, and does not touch the journal, the
  state files, the appends in flight or \<open>state_num\<close>.\<close>

lemma replay_apply:
  assumes "Msg_state (Some n) \<notin> set post"
    and "list_all (\<lambda>r. get_handler r = None \<or> has_payload r) post"
  shows "\<exists>w'. replay n True post w = Returned w' \<and> book_seq w' = book_seq (fold handle post w) \<and>
           journal w' = journal w \<and> files w' = files w \<and> pending w' = pending w \<and>
           state_num (matcher w') = state_num (matcher w)"
  using assms
proof (induction post arbitrary: w)
  case Nil
  then show ?case by simp
next
  case (Cons r post)
  from Cons.prems have nm: "r \<noteq> Msg_state (Some n)" and p: "get_handler r = None \<or> has_payload r"
    and rest: "Msg_state (Some n) \<notin> set post"
      "list_all (\<lambda>r. get_handler r = None \<or> has_payload r) post"
    by auto
  show ?case
  proof (cases "get_handler r")
    case None
    then have "handle r w = w" by (simp add: handle_def)
    with Cons.IH [OF rest, of w] nm None show ?thesis by simp
  next
    case (Some h)
    with p have hp: "has_payload r" by simp
    from invoke_replay [OF Some hp, of w] obtain w1 where
      w1: "invoke h False r w = Inr w1" "matcher w1 = matcher (handle r w)"
        "journal w1 = journal w" "files w1 = files w" "pending w1 = pending w"
      by blast
    then have b: "book_seq w1 = book_seq (handle r w)"
      and sn: "state_num (matcher w1) = state_num (matcher w)"
      by (simp_all add: book_seq_def handle_proj)
    from Cons.IH [OF rest, of w1] obtain w' where
      w': "replay n True post w1 = Returned w'" "book_seq w' = book_seq (fold handle post w1)"
        "journal w' = journal w1" "files w' = files w1" "pending w' = pending w1"
        "state_num (matcher w') = state_num (matcher w1)"
      by blast
    from book_seq_fold_handle [OF b, of post] w' nm Some w1 sn show ?thesis
      by simp
  qed
qed

lemma restart_no_files:
  "files w = [] \<Longrightarrow> restart w = Returned (start_server (crashed w))"
  by (simp add: restart_def start_def recover_def disk_of_def)

lemma book_seq_start_server [simp]: "book_seq (start_server w) = book_seq w"
  by (simp add: book_seq_def start_server_def write_state_def Let_def)

text \<open>Under the invariant a restart returns, with the book and \<open>output_seq\<close> of the crashed
  engine; the journal and the state files are as they were, the start-up snapshot of the
  next generation is in flight.\<close>

lemma recover_equiv:
  assumes inv: "rec_inv w"
  shows "\<exists>w'. restart w = Returned w' \<and> book_seq w' = book_seq w \<and>
           journal w' = journal w \<and> files w' = files w \<and>
           pending w' = [(Msg_state (Some (base w)), Capture (base w) Listen)] \<and>
           state_num (matcher w') = base w + 1"
proof (cases "files w = []")
  case True
  with inv have j: "journal w = []" and b: "base w = 0"
    by (simp_all add: rec_inv_def snapshot_inv_def)
  with inv have "book_seq w = book_seq fresh" by (simp add: rec_inv_def)
  then have "book_seq w = book_seq (crashed w)"
    by (simp add: book_seq_def crashed_def fresh_def)
  with True b show ?thesis
    by (simp add: restart_no_files)
      (simp add: start_server_def write_state_def crashed_def Matcher_def Let_def)
next
  case False
  then obtain n st fs where f: "files w = (n, st) # fs"
    by (cases "files w") auto
  have hd: "hd (files w) = (n, st)" "tl (files w) = fs"
    by (simp_all add: f)
  from inv False have "base w = n + 1 \<and>
      (\<exists>pre post. journal w = pre @ Msg_state (Some n) # post \<and>
         Msg_state (Some n) \<notin> set pre \<and> Msg_state (Some n) \<notin> set post \<and>
         (\<forall>k \<in> fst ` set fs. k < n) \<and>
         st = (state (matcher (fold handle pre fresh)))\<lparr>es_state_num := n + 1\<rparr>)"
    unfolding rec_inv_def snapshot_inv_def hd by simp
  then obtain pre post where
    j: "journal w = pre @ Msg_state (Some n) # post" and
    npre: "Msg_state (Some n) \<notin> set pre" and npost: "Msg_state (Some n) \<notin> set post" and
    older: "\<forall>k \<in> fst ` set fs. k < n" and
    st: "st = (state (matcher (fold handle pre fresh)))\<lparr>es_state_num := n + 1\<rparr>" and
    nb: "base w = n + 1"
    by blast
  let ?M = "matcher (fold handle pre fresh)"
  have binv: "book_inv (order_book ?M)"
    by (rule book_inv_fold_handle) (simp add: fresh_def Matcher_def)
  have rest: "at_rest st"
    unfolding st by (rule at_rest_state [OF binv])
  have l: "latest (n # map fst fs) = n"
    using older by (simp add: latest_head)
  let ?w1 = "load_state st (crashed w)"
  have e: "order_book (matcher (crashed w)) = OrderBook"
    by (simp add: crashed_def Matcher_def)
  have rs: "\<lparr>bids = map (restore Buy) (es_bids st), asks = map (restore Sell) (es_asks st)\<rparr>
            = order_book ?M"
    unfolding st by (rule restore_state [OF binv])
  have os: "es_output_seq st = output_seq ?M" "es_state_num st = n + 1"
    by (simp_all add: st state_def)
  have m1: "matcher ?w1 = \<lparr>state_num = n + 1, output_seq = output_seq ?M,
                             order_book = order_book ?M\<rparr>"
    unfolding load_state_at_rest [OF rest e] by (simp add: rs os)
  have o1: "journal ?w1 = journal w" "files ?w1 = files w" "pending ?w1 = []"
    unfolding load_state_at_rest [OF rest e]
    by (simp_all add: set_book_def publish_def crashed_def)
  have b1: "book_seq ?w1 = book_seq (fold handle pre fresh)"
    by (simp add: book_seq_def m1)
  have jp: "list_all (\<lambda>r. get_handler r = None \<or> has_payload r) post"
    using inv by (simp add: rec_inv_def flight_inv_def j)
  from replay_apply [OF npost jp, of ?w1] obtain w2 where
    w2: "replay n True post ?w1 = Returned w2" "book_seq w2 = book_seq (fold handle post ?w1)"
      "journal w2 = journal ?w1" "files w2 = files ?w1" "pending w2 = pending ?w1"
      "state_num (matcher w2) = state_num (matcher ?w1)"
    by blast
  have r: "replay (state_num (matcher ?w1) - 1) False (journal w) ?w1 = Returned w2"
    by (simp add: m1 j replay_skip [OF npre] w2)
  have "restart w = Returned (start_server w2)"
    using r by (simp add: restart_def start_def recover_def disk_of_def f l Let_def)
  moreover have "book_seq w2 = book_seq w"
  proof -
    have "book_seq w2 = book_seq (fold handle post (fold handle pre fresh))"
      using w2(2) book_seq_fold_handle [OF b1, of post] by simp
    also have "\<dots> = book_seq (fold handle (journal w) fresh)"
      by (simp add: j handle_cases)
    also have "\<dots> = book_seq w"
      using inv by (simp add: rec_inv_def)
    finally show ?thesis .
  qed
  moreover have "journal (start_server w2) = journal w" "files (start_server w2) = files w"
    "pending (start_server w2) = [(Msg_state (Some (base w)), Capture (base w) Listen)]"
    "state_num (matcher (start_server w2)) = base w + 1"
    using w2 o1 m1 nb by (simp_all add: start_server_def write_state_def Let_def)
  ultimately show ?thesis by simp
qed

lemma rec_inv_restart:
  assumes inv: "rec_inv w"
  shows "rec_inv (world_of (restart w))"
proof -
  from recover_equiv [OF inv] obtain w' where
    w': "restart w = Returned w'" "book_seq w' = book_seq w" "journal w' = journal w"
      "files w' = files w" "pending w' = [(Msg_state (Some (base w)), Capture (base w) Listen)]"
      "state_num (matcher w') = base w + 1"
    by blast
  have b: "base w' = base w"
    by (simp add: base_def w')
  have 1: "flight_inv w'"
    unfolding flight_inv_def b using inv
    by (simp add: rec_inv_def flight_inv_def w')
  have 2: "book_seq w' = book_seq (fold handle (journal w') fresh)"
    using inv by (simp add: rec_inv_def w')
  have 3: "snapshot_inv w'"
    by (rule snapshot_inv_cong [of w]) (use inv b in \<open>simp_all add: rec_inv_def w'\<close>)
  from 1 2 3 show ?thesis by (simp add: rec_inv_def w')
qed

lemma rec_inv_lifetimes:
  "rec_inv w \<Longrightarrow> list_all with_payload es \<Longrightarrow> list_all (list_all with_payload) ess \<Longrightarrow>
   rec_inv (lifetimes es ess w)"
proof (induction ess arbitrary: es w)
  case Nil
  then show ?case by (simp add: rec_inv_run)
next
  case (Cons es' ess)
  from Cons.prems have r: "rec_inv (run es w)" by (simp add: rec_inv_run)
  from recover_equiv [OF r] obtain w' where w': "restart (run es w) = Returned w'" by blast
  with rec_inv_restart [OF r] have "rec_inv w'" by simp
  from Cons.IH [OF this, of es'] Cons.prems w' show ?case by simp
qed

text \<open>
  Recovery equivalence holds for an engine started on an empty directory as long as each
  order and cancel message it receives carries a payload and no message has a type that
  names an inherited member of the handler table: at any moment of any of its lifetimes,
  a restart from the state files and the journal written so far returns, with the book
  and the \<open>output_seq\<close> the engine had. A state file is taken to be on disk, whole, from
  the moment the closure of \<^verbatim>\<open>write_state\<close> has called \<^verbatim>\<open>fs.writeFile\<close>.
\<close>

theorem recovery_equivalence:
  assumes "list_all with_payload es" and "list_all (list_all with_payload) ess"
  shows "threw (restart (lifetimes es ess (start_server fresh))) = None
       \<and> book_seq (world_of (restart (lifetimes es ess (start_server fresh))))
           = book_seq (lifetimes es ess (start_server fresh))"
proof -
  have "rec_inv (lifetimes es ess (start_server fresh))"
    using rec_inv_start assms by (rule rec_inv_lifetimes)
  from recover_equiv [OF this] show ?thesis by auto
qed

text \<open>Scenario S6: S1, S2, a snapshot, then the cancel of \<open>A\<close>; the restarted engine has
  the empty book and \<open>output_seq = 6\<close> of the moment of the crash.\<close>

lemma recovery_equivalence_S6:
  "list_all with_payload
     [Journal_done, Connection 1, Message 1 (Msg_order (Some order_A)), Journal_done,
      Message 1 (Msg_order (Some order_B)), Journal_done, Message 1 (Msg_state None),
      Journal_done, Message 1 (Msg_cancel (Some cancel_A)), Journal_done]
   \<and> book_seq (run
       [Journal_done, Connection 1, Message 1 (Msg_order (Some order_A)), Journal_done,
        Message 1 (Msg_order (Some order_B)), Journal_done, Message 1 (Msg_state None),
        Journal_done, Message 1 (Msg_cancel (Some cancel_A)), Journal_done]
       (start_server fresh)) = (\<lparr>bids = [], asks = []\<rparr>, 6)
   \<and> threw (restart (run
       [Journal_done, Connection 1, Message 1 (Msg_order (Some order_A)), Journal_done,
        Message 1 (Msg_order (Some order_B)), Journal_done, Message 1 (Msg_state None),
        Journal_done, Message 1 (Msg_cancel (Some cancel_A)), Journal_done]
       (start_server fresh))) = None
   \<and> book_seq (world_of (restart (run
       [Journal_done, Connection 1, Message 1 (Msg_order (Some order_A)), Journal_done,
        Message 1 (Msg_order (Some order_B)), Journal_done, Message 1 (Msg_state None),
        Journal_done, Message 1 (Msg_cancel (Some cancel_A)), Journal_done]
       (start_server fresh)))) = (\<lparr>bids = [], asks = []\<rparr>, 6)"
proof -
  let ?es = "[Journal_done, Connection 1, Message 1 (Msg_order (Some order_A)), Journal_done,
      Message 1 (Msg_order (Some order_B)), Journal_done, Message 1 (Msg_state None),
      Journal_done, Message 1 (Msg_cancel (Some cancel_A)), Journal_done]"
  have p: "list_all with_payload ?es" by simp
  have "run ?es (start_server fresh) =
        run [Message 1 (Msg_state None), Journal_done, Message 1 (Msg_cancel (Some cancel_A)),
             Journal_done] after_S2"
    by (simp add: after_S2_def after_S1_def started_def run_def)
  also have "book_seq \<dots> = (\<lparr>bids = [], asks = []\<rparr>, 6)"
    by (simp add: after_S2_eq after_S1_eq engine_defs cancel_A_def book_seq_def)
  finally have b: "book_seq (run ?es (start_server fresh)) = (\<lparr>bids = [], asks = []\<rparr>, 6)" .
  from recovery_equivalence [OF p, of "[]"] p b show ?thesis by simp
qed

text \<open>
  \<^bold>\<open>C1.\<close> The equivalence fails when the journal holds a record without payload. A client
  sends \<^verbatim>\<open>{type: 'cancel'}\<close> to an engine started on an empty directory. At steady state
  the message is journaled, then logged and dropped: the book is empty and \<open>output_seq\<close>
  is 0. The restart loads snapshot 0, finds the marker \<open>state(0)\<close> and passes the record to
  the cancel handler, which throws a TypeError on \<^verbatim>\<open>payload.order_id\<close>: recovery does not
  return and the state before the crash is not reproduced.
\<close>

theorem C1_replay_without_payload:
  "journal (run [Connection 1, Message 1 (Msg_cancel None), Journal_done] started)
     = [Msg_state (Some 0), Msg_cancel None]
   \<and> book_seq (run [Connection 1, Message 1 (Msg_cancel None), Journal_done] started)
     = (\<lparr>bids = [], asks = []\<rparr>, 0)
   \<and> threw (restart (run [Connection 1, Message 1 (Msg_cancel None), Journal_done] started))
     = Some TypeError"
  by (simp add: started_eq engine_defs book_seq_def)

subsection \<open>The reply to a failed cancel\<close>

text \<open>
  \<^bold>\<open>C7\<close> (as amended). A cancel whose \<open>remove\<close> returns an error, applied by the callback of
  its journal append (\<open>handle\<close>): one \<^verbatim>\<open>cancel_reject\<close> with the order id and the error's
  message is sent to every connection whose reply listener is registered at that moment,
  in the order of registration; nothing goes to the feed or the outbound journal, and the
  matcher (book, \<open>output_seq\<close>, \<open>state_num\<close>) is as before.
\<close>

theorem C7_cancel_reject:
  assumes "fst (remove (order_id pl) (sender_id pl) (order_book (matcher w))) = Some e"
  shows "sent (handle (Msg_cancel (Some pl)) w) =
           sent w @ map (\<lambda>c. (c, Cancel_reject (sender_id pl) (order_id pl) (message e)))
                       (listeners w)
       \<and> feed (handle (Msg_cancel (Some pl)) w) = feed w
       \<and> journal_out (handle (Msg_cancel (Some pl)) w) = journal_out w
       \<and> matcher (handle (Msg_cancel (Some pl)) w) = matcher w"
  by (simp add: handle_def cancel_handler_error [OF assms])

theorem C7_cancel_reject_witness:
  "fst (remove ''A'' ''u2'' (order_book (matcher after_S1))) = Some NotOwner
   \<and> sent (handle (Msg_cancel (Some \<lparr>order_id = ''A'', sender_id = ''u2''\<rparr>)) after_S1) =
       [(1, Cancel_reject ''u2'' ''A'' ''not owner'')]
   \<and> feed (handle (Msg_cancel (Some \<lparr>order_id = ''A'', sender_id = ''u2''\<rparr>)) after_S1) =
       feed after_S1
   \<and> matcher (handle (Msg_cancel (Some \<lparr>order_id = ''A'', sender_id = ''u2''\<rparr>)) after_S1) =
       matcher after_S1"
proof -
  let ?pl = "\<lparr>order_id = ''A'', sender_id = ''u2''\<rparr>"
  have r: "fst (remove (order_id ?pl) (sender_id ?pl) (order_book (matcher after_S1))) = Some NotOwner"
    by (simp add: after_S1_eq remove_def)
  have l: "listeners after_S1 = [1]" "sent after_S1 = []"
    by (simp_all add: after_S1_eq)
  show ?thesis
    using C7_cancel_reject [OF r] r l by simp
qed

text \<open>The reply is not tied to the originating connection. After S1, with a second
  connection open, the cancel of \<open>A\<close> by the wrong owner arrives on connection 2: the
  reject is sent to connection 1 as well. If connection 2 closes before its journal
  append completes, the reject is sent to connection 1 alone.\<close>

theorem C7_counterexample:
  "sent (run [Connection 2, Message 2 (Msg_cancel (Some \<lparr>order_id = ''A'', sender_id = ''u2''\<rparr>)),
              Journal_done] after_S1) =
     [(1, Cancel_reject ''u2'' ''A'' ''not owner''), (2, Cancel_reject ''u2'' ''A'' ''not owner'')]
   \<and> sent (run [Connection 2, Message 2 (Msg_cancel (Some \<lparr>order_id = ''A'', sender_id = ''u2''\<rparr>)),
              Close 2, Journal_done] after_S1) =
     [(1, Cancel_reject ''u2'' ''A'' ''not owner'')]"
  by (simp add: after_S1_eq engine_defs)

subsection \<open>The snapshots an engine writes\<close>

lemma book_inv_step:
  "book_inv (order_book (matcher w)) \<Longrightarrow> book_inv (order_book (matcher (step e w)))"
  using step_effect [of e w] by (auto simp: book_inv_handle_out)

lemma files_at_rest_step:
  assumes "book_inv (order_book (matcher w))" and "list_all (at_rest \<circ> snd) (files w)"
  shows "list_all (at_rest \<circ> snd) (files (step e w))"
proof (cases e)
  case (Connection c)
  with assms show ?thesis by (simp add: on_connection_def)
next
  case (Close c)
  with assms show ?thesis by (simp add: on_close_def)
next
  case (Message c m)
  with assms show ?thesis
    by (auto simp: on_msg_def write_state_def Let_def split: option.splits msg.splits)
next
  case Journal_done
  show ?thesis
  proof (cases "pending w")
    case Nil
    with assms show ?thesis by (simp add: Journal_done journal_done_def)
  next
    case (Cons x rest)
    obtain r cb where x: "x = (r, cb)" by (cases x)
    from assms show ?thesis
      by (cases cb) (simp_all add: Journal_done journal_done_def Cons x handle_proj at_rest_state)
  qed
qed

lemma files_at_rest_run:
  "book_inv (order_book (matcher w)) \<Longrightarrow> list_all (at_rest \<circ> snd) (files w) \<Longrightarrow>
   list_all (at_rest \<circ> snd) (files (run es w))"
proof (induction es arbitrary: w)
  case Nil
  then show ?case by (simp add: run_def)
next
  case (Cons e es)
  from Cons.IH [OF book_inv_step [OF Cons.prems(1)] files_at_rest_step [OF Cons.prems]]
  show ?case by (simp add: run_def)
qed

text \<open>Every state file written by an engine started on an empty directory is at rest,
  so the hypothesis of C5 holds for each snapshot that recovery can select from them.\<close>

lemma written_snapshots_at_rest:
  "list_all (at_rest \<circ> snd) (files (run es (start_server fresh)))"
  by (rule files_at_rest_run)
    (simp_all add: start_server_def write_state_def fresh_def Matcher_def Let_def)

subsection \<open>The order of the feed across restarts\<close>

lemma seen_after_incl: "set seen \<subseteq> set (seen_after seen xs)"
proof (induction xs arbitrary: seen)
  case Nil
  then show ?case by simp
next
  case (Cons x xs)
  show ?case
  proof (cases x)
    case (Order_status st s i sn pr z)
    from Cons.IH [of "i # seen"] Cons.IH [of seen] show ?thesis
      by (simp add: Order_status)
  next
    case (Done_status i st z pr s u r)
    with Cons.IH [of seen] show ?thesis by simp
  next
    case (Match_payload t p tu pu n pr s l td pd)
    with Cons.IH [of seen] show ?thesis by simp
  qed
qed

lemma seen_ids_grow: "feed w' = feed w @ xs \<Longrightarrow> seen_ids w \<subseteq> seen_ids w'"
  by (simp add: seen_ids_def seen_after_append seen_after_incl)

lemma snap_ids_state [simp]:
  "snap_ids ((state m)\<lparr>es_state_num := k\<rparr>) = book_ids (order_book m)"
  by (simp add: snap_ids_def state_def book_ids_def to_data_def image_image)

lemma feed_inv_cong:
  "feed_inv w \<Longrightarrow> feed w' = feed w \<Longrightarrow> order_book (matcher w') = order_book (matcher w) \<Longrightarrow>
   files w' = files w \<Longrightarrow> feed_inv w'"
  by (simp add: feed_inv_def seen_ids_def)

lemma feed_inv_publish:
  assumes inv: "feed_inv w"
    and m: "order_book (matcher w') = snd (handle_out m (order_book (matcher w)))"
      "feed w' = feed w @ envelopes s (fst (handle_out m (order_book (matcher w))))"
    and f: "\<forall>f \<in> set (files w'). f \<in> set (files w) \<or> snap_ids (snd f) \<subseteq> book_ids (order_book (matcher w))"
  shows "feed_inv w'"
proof -
  from inv have b: "book_ids (order_book (matcher w)) \<subseteq> set (seen_after [] (map payload (feed w)))"
    by (simp add: feed_inv_def seen_ids_def)
  from handle_out_received_first [OF b, of m] inv have
    1: "received_first [] (map payload (feed w'))" and
    2: "book_ids (order_book (matcher w')) \<subseteq> seen_ids w'"
    by (simp_all add: feed_inv_def seen_ids_def m received_first_append seen_after_append)
  have g: "seen_ids w \<subseteq> seen_ids w'"
    using m(2) by (rule seen_ids_grow)
  have 3: "\<forall>f \<in> set (files w'). snap_ids (snd f) \<subseteq> seen_ids w'"
  proof
    fix x assume "x \<in> set (files w')"
    with f have "x \<in> set (files w) \<or> snap_ids (snd x) \<subseteq> book_ids (order_book (matcher w))"
      by blast
    with inv have "snap_ids (snd x) \<subseteq> seen_ids w"
      by (auto simp: feed_inv_def)
    with g show "snap_ids (snd x) \<subseteq> seen_ids w'" by blast
  qed
  from 1 2 3 show ?thesis by (simp add: feed_inv_def)
qed

lemma step_files:
  "\<forall>f \<in> set (files (step e w)).
     f \<in> set (files w) \<or> snap_ids (snd f) \<subseteq> book_ids (order_book (matcher w))"
proof (cases e)
  case (Connection c)
  then show ?thesis by (simp add: on_connection_def)
next
  case (Close c)
  then show ?thesis by (simp add: on_close_def)
next
  case (Message c m)
  then show ?thesis
    by (auto simp: on_msg_def write_state_def Let_def split: option.splits msg.splits)
next
  case Journal_done
  show ?thesis
  proof (cases "pending w")
    case Nil
    then show ?thesis by (simp add: Journal_done journal_done_def)
  next
    case (Cons x rest)
    obtain r cb where x: "x = (r, cb)" by (cases x)
    show ?thesis
      by (cases cb) (auto simp: Journal_done journal_done_def Cons x handle_proj)
  qed
qed

lemma feed_inv_step: "feed_inv w \<Longrightarrow> feed_inv (step e w)"
proof -
  assume inv: "feed_inv w"
  obtain m where m:
    "order_book (matcher (step e w)) = snd (handle_out m (order_book (matcher w)))"
    "feed (step e w) =
       feed w @ envelopes (output_seq (matcher w)) (fst (handle_out m (order_book (matcher w))))"
    using step_effect [of e w] by blast
  from feed_inv_publish [OF inv m step_files] show ?thesis .
qed

lemma feed_inv_run: "feed_inv w \<Longrightarrow> feed_inv (run es w)"
proof (induction es arbitrary: w)
  case Nil
  then show ?case by (simp add: run_def)
next
  case (Cons e es)
  from Cons.IH [OF feed_inv_step [OF Cons.prems, of e]] show ?case
    by (simp add: run_def)
qed

lemma feed_inv_handle: "feed_inv w \<Longrightarrow> feed_inv (handle m w)"
  by (rule feed_inv_publish [where m = m and s = "output_seq (matcher w)"])
    (auto simp: handle_proj)

lemma feed_inv_book_add:
  assumes inv: "feed_inv w" and x: "id' x \<in> seen_ids w"
  shows "feed_inv (book_add x w) \<and> seen_ids (book_add x w) = seen_ids w"
proof -
  obtain evs b' where a: "add x (order_book (matcher w)) = (evs, b')"
    by (cases "add x (order_book (matcher w))")
  let ?S = "seen_after [] (map payload (feed w))"
  from add_ids [OF a] inv x have
    1: "book_ids b' \<subseteq> set ?S" and
    2: "\<forall>ev \<in> set evs. event_ids ev \<subseteq> set ?S"
    by (auto simp: feed_inv_def seen_ids_def)
  have f: "feed (book_add x w) = feed w @ envelopes (output_seq (matcher w)) (map event_msg evs)"
    and b: "order_book (matcher (book_add x w)) = b'" and fl: "files (book_add x w) = files w"
    by (simp_all add: book_add_eq a set_book_def publish_def)
  from events_received_first [OF 2] have
    r: "received_first ?S (map (snd \<circ> event_msg) evs)" and
    s: "seen_after ?S (map (snd \<circ> event_msg) evs) = ?S"
    by auto
  have s': "seen_ids (book_add x w) = seen_ids w"
    by (simp add: seen_ids_def f seen_after_append s)
  have A: "received_first [] (map payload (feed (book_add x w)))"
    using inv r by (simp add: f received_first_append feed_inv_def)
  have B: "book_ids (order_book (matcher (book_add x w))) \<subseteq> seen_ids (book_add x w)"
    unfolding s' b using 1 by (simp add: seen_ids_def)
  have C: "\<forall>f \<in> set (files (book_add x w)). snap_ids (snd f) \<subseteq> seen_ids (book_add x w)"
    unfolding s' fl using inv by (simp add: feed_inv_def)
  from A B C s' show ?thesis by (simp add: feed_inv_def)
qed

lemma feed_inv_load:
  "feed_inv w \<Longrightarrow> \<forall>d \<in> set ds. id' d \<in> seen_ids w \<Longrightarrow>
   feed_inv (fold (load_order s) ds w) \<and> seen_ids (fold (load_order s) ds w) = seen_ids w"
proof (induction ds arbitrary: w)
  case Nil
  then show ?case by simp
next
  case (Cons d ds)
  from Cons.prems have "id' (restore s d) \<in> seen_ids w" by simp
  from feed_inv_book_add [OF Cons.prems(1) this] have
    1: "feed_inv (load_order s d w)" "seen_ids (load_order s d w) = seen_ids w"
    by (simp_all add: load_order_def restore_def)
  have "\<forall>x \<in> set ds. id' x \<in> seen_ids (load_order s d w)"
    using Cons.prems(2) by (simp add: 1(2))
  from Cons.IH [OF 1(1) this] show ?case by (simp add: 1(2))
qed

lemma feed_inv_load_state:
  assumes "feed_inv w" and "snap_ids st \<subseteq> seen_ids w"
  shows "feed_inv (load_state st w)"
proof -
  let ?w1 = "fold (load_order Buy) (es_bids st) w"
  let ?w2 = "fold (load_order Sell) (es_asks st) ?w1"
  from assms(2) have ids: "\<forall>d \<in> set (es_bids st). id' d \<in> seen_ids w"
    "\<forall>d \<in> set (es_asks st). id' d \<in> seen_ids w"
    by (auto simp: snap_ids_def)
  from feed_inv_load [OF assms(1) ids(1)] have
    1: "feed_inv ?w1" "seen_ids ?w1 = seen_ids w" by auto
  have "\<forall>x \<in> set (es_asks st). id' x \<in> seen_ids ?w1"
    using ids(2) by (simp add: 1(2))
  from feed_inv_load [OF 1(1) this] have 2: "feed_inv ?w2" by simp
  show ?thesis
    unfolding load_state_def Let_def by (rule feed_inv_cong [OF 2]) simp_all
qed

lemma feed_inv_replay: "feed_inv w \<Longrightarrow> feed_inv (world_of (replay n pb lines w))"
proof (induction lines arbitrary: w pb)
  case Nil
  then show ?case by simp
next
  case (Cons m lines)
  show ?case
  proof (cases "m = Msg_state (Some n)")
    case True
    with Cons.IH [OF Cons.prems] show ?thesis by simp
  next
    case nm: False
    show ?thesis
    proof (cases "pb \<and> get_handler m \<noteq> None")
      case False
      with nm Cons.IH [OF Cons.prems] show ?thesis
        by (auto split: option.splits)
    next
      case True
      then obtain h where h: "get_handler m = Some h" and pb: pb by auto
      show ?thesis
      proof (cases "has_payload m")
        case False
        with h pb nm Cons.prems show ?thesis
          by (simp add: invoke_no_payload)
      next
        case True
        from invoke_replay [OF h True, of w] obtain w' where
          w': "invoke h False m w = Inr w'" "matcher w' = matcher (handle m w)"
            "feed w' = feed (handle m w)" "files w' = files w"
          by blast
        have "feed_inv w'"
          by (rule feed_inv_cong [OF feed_inv_handle [OF Cons.prems, of m]])
            (simp_all add: w' handle_proj)
        from Cons.IH [OF this] h pb nm w' show ?thesis by simp
      qed
    qed
  qed
qed

lemma feed_inv_start_server: "feed_inv w \<Longrightarrow> feed_inv (start_server w)"
  by (erule feed_inv_cong) (simp_all add: start_server_def write_state_def Let_def)

lemma feed_inv_crashed: "feed_inv w \<Longrightarrow> feed_inv (crashed w)"
  by (simp add: feed_inv_def crashed_def Matcher_def OrderBook_def book_ids_def seen_ids_def)

lemma feed_inv_restart:
  assumes "feed_inv w"
  shows "feed_inv (world_of (restart w))"
proof -
  let ?c = "crashed w"
  have c: "feed_inv ?c" by (rule feed_inv_crashed [OF assms])
  show ?thesis
  proof (cases "files w = []")
    case True
    with feed_inv_start_server [OF c] show ?thesis
      by (simp add: restart_no_files)
  next
    case False
    let ?n = "latest (map fst (files w))"
    show ?thesis
    proof (cases "map_of (files w) ?n")
      case None
      with False feed_inv_start_server [OF c] show ?thesis
        by (simp add: restart_def start_def recover_def disk_of_def)
    next
      case (Some st)
      then have "(?n, st) \<in> set (files ?c)"
        by (simp add: crashed_def map_of_SomeD)
      moreover from c have "\<forall>f \<in> set (files ?c). snap_ids (snd f) \<subseteq> seen_ids ?c"
        by (simp add: feed_inv_def)
      ultimately have "snap_ids st \<subseteq> seen_ids ?c"
        by fastforce
      from feed_inv_load_state [OF c this] have l: "feed_inv (load_state st ?c)" .
      let ?r = "replay (state_num (matcher (load_state st ?c)) - 1) False (journal w)
                  (load_state st ?c)"
      from feed_inv_replay [OF l] have r: "feed_inv (world_of ?r)" .
      have "world_of (restart w) =
            (case ?r of Returned w2 \<Rightarrow> start_server w2 | Threw e w2 \<Rightarrow> w2)"
        using False Some
        by (simp add: restart_def start_def recover_def disk_of_def Let_def split: result.splits)
      with r show ?thesis
        by (cases ?r) (simp_all add: feed_inv_start_server)
    qed
  qed
qed

lemma feed_inv_lifetimes: "feed_inv w \<Longrightarrow> feed_inv (lifetimes es ess w)"
proof (induction ess arbitrary: es w)
  case Nil
  then show ?case by (simp add: feed_inv_run)
next
  case (Cons es' ess)
  from feed_inv_restart [OF feed_inv_run [OF Cons.prems, of es]]
  have r: "feed_inv (world_of (restart (run es w)))" .
  show ?case
  proof (cases "restart (run es w)")
    case (Returned w')
    with r Cons.IH [of w' es'] show ?thesis by simp
  next
    case (Threw e w')
    with r show ?thesis by simp
  qed
qed

text \<open>
  \<^bold>\<open>C6.\<close> The order handler publishes the \<^verbatim>\<open>received\<close> status of its order first, stamped
  with the current \<open>output_seq\<close>, and after it the envelopes of the events that \<open>add\<close> emits.
  On the feed of an engine started on an empty directory, whatever happens to it, crashes
  and recoveries included, every \<^verbatim>\<open>open\<close>, \<^verbatim>\<open>match\<close> and \<^verbatim>\<open>done\<close> envelope names only order
  ids whose \<^verbatim>\<open>received\<close> status is earlier on the feed.
\<close>

theorem C6_received_first:
  "feed (order_handler pl w) = feed w @ published w (order_handler pl w)
   \<and> published w (order_handler pl w) =
       \<lparr>type' = ''order_status'', seq = output_seq (matcher w),
        payload = Order_status ''received'' (side pl) (id' pl) (sender pl) (price pl) (size' pl)\<rparr>
       # envelopes (output_seq (matcher w) + 1)
           (map event_msg (fst (add (parse pl) (order_book (matcher w)))))
   \<and> order_book (matcher (order_handler pl w)) = snd (add (parse pl) (order_book (matcher w)))
   \<and> received_first [] (map payload (feed (run es (start_server fresh))))
   \<and> received_first [] (map payload (feed (lifetimes es ess (start_server fresh))))"
proof -
  have i: "feed_inv (start_server fresh)"
    by (simp add: feed_inv_def seen_ids_def start_server_def write_state_def fresh_def
        Matcher_def OrderBook_def book_ids_def Let_def)
  from feed_inv_run [OF i, of es]
  have 1: "received_first [] (map payload (feed (run es (start_server fresh))))"
    by (simp add: feed_inv_def)
  from feed_inv_lifetimes [OF i, of es ess]
  have 2: "received_first [] (map payload (feed (lifetimes es ess (start_server fresh))))"
    by (simp add: feed_inv_def)
  from 1 2 show ?thesis
    by (simp add: order_handler_proj published_def order_out_def received_msg_def)
qed

subsection \<open>The reason of a done envelope\<close>












end
